theory Spec2Isabelle
  imports
    Main
    "HOL-Library.Word"
    "HOL-Library.Multiset"
    "HOL-Library.Sublist"
    "HOL-Library.Monad_Syntax"
begin

section \<open>The persistent list of \<^verbatim>\<open>gungnir/List.hpp\<close>\<close>

text \<open>
  The class \<^verbatim>\<open>List<A>\<close> is a handle (a cached size and a shared pointer to a node) on
  a chain of immutable nodes. Nodes live in a store; a node address is an index into the
  store, and \<^verbatim>\<open>Node::create\<close> allocates the next free address. Nothing is ever
  deallocated in the model: reference counts are not modelled.

  \<^item> A \<^verbatim>\<open>std::shared_ptr<const T>\<close> is an \<open>option\<close>: \<open>None\<close> is the null pointer.
    A pointer to an element is represented by the element it points to, a pointer to a
    node by the node's address.
  \<^item> \<^verbatim>\<open>std::size_t\<close> is a 64-bit word.
  \<^item> Dereferencing a null or dangling pointer is undefined behaviour: the operation returns
    \<open>None\<close>. A loop that does not terminate is \<open>None\<close> as well.
  \<^item> \<^verbatim>\<open>throw std::out_of_range(msg)\<close> is the value \<open>Inl (out_of_range msg)\<close>.
  \<^item> A \<^verbatim>\<open>std::vector\<close> is a list, \<^verbatim>\<open>emplace_back\<close> appends at the end, and the
    reverse iterator range \<^verbatim>\<open>rbegin() .. rend()\<close> delivers the reversed list.
  \<^item> Each element type has a store of its own: \<^verbatim>\<open>List<A>::Node\<close> and
    \<^verbatim>\<open>List<B>::Node\<close> are different classes.
\<close>

type_synonym addr = nat
type_synonym size_t = "64 word"

datatype exn = out_of_range string

record 'a Node =
  head :: "'a option"
  tail :: "addr option"

type_synonym 'a heap = "'a Node list"

text \<open>The members \<^verbatim>\<open>size_\<close> and \<^verbatim>\<open>node_\<close> (a name cannot end with an underscore here).\<close>

record List =
  size_m :: size_t
  node_m :: "addr option"

definition deref :: "'a heap \<Rightarrow> addr option \<Rightarrow> 'a Node option" where
  "deref h p = (case p of None \<Rightarrow> None | Some a \<Rightarrow> if a < length h then Some (h ! a) else None)"

subsection \<open>Nodes\<close>

text \<open>\<^verbatim>\<open>Node::create()\<close>: a fresh node with null head and null tail.\<close>

definition Node_create_nil :: "'a heap \<Rightarrow> addr option \<times> 'a heap" where
  "Node_create_nil h = (Some (length h), h @ [\<lparr>head = None, tail = None\<rparr>])"

text \<open>\<^verbatim>\<open>Node::create(head, tail)\<close>: a fresh node holding the two pointers.\<close>

definition Node_create :: "'a option \<Rightarrow> addr option \<Rightarrow> 'a heap \<Rightarrow> addr option \<times> 'a heap" where
  "Node_create e t h = (Some (length h), h @ [\<lparr>head = e, tail = t\<rparr>])"

subsection \<open>Private members\<close>

text \<open>The private constructor \<^verbatim>\<open>List(size, node)\<close>.\<close>

definition List_mk :: "size_t \<Rightarrow> addr option \<Rightarrow> List" where
  "List_mk sz nd = \<lparr>size_m = sz, node_m = nd\<rparr>"

text \<open>
  \<^verbatim>\<open>foreachImpl\<close>: \<^verbatim>\<open>for (auto n = node_.get(); n->head; n = n->tail.get()) f(n->head);\<close>
  The closure \<open>f\<close> works on the variables it captured by reference (the component \<open>'s\<close>)
  and may allocate, so the store is threaded through it; every iteration reads the
  current store. The closure receives the (non-null) element pointer as the element.
\<close>

partial_function (option) foreachImpl ::
  "addr option \<Rightarrow> ('a \<Rightarrow> 'a heap \<times> 's \<Rightarrow> 'a heap \<times> 's) \<Rightarrow> 'a heap \<times> 's \<Rightarrow> ('a heap \<times> 's) option"
where
  "foreachImpl n f st =
     (case deref (fst st) n of
        None \<Rightarrow> None
      | Some nd \<Rightarrow>
          (case head nd of
             None \<Rightarrow> Some st
           | Some x \<Rightarrow> foreachImpl (tail nd) f (f x st)))"

text \<open>
  \<^verbatim>\<open>toList(size, rbegin, rend, head)\<close>: prepends the elements delivered by the iterator
  range, one node each, onto \<open>head\<close>. The argument \<open>rs\<close> is the sequence the range
  delivers.
\<close>

fun toList_loop :: "'a option list \<Rightarrow> addr option \<Rightarrow> 'a heap \<Rightarrow> addr option \<times> 'a heap" where
  "toList_loop [] n h = (n, h)"
| "toList_loop (x # rs) n h = (case Node_create x n h of (n', h') \<Rightarrow> toList_loop rs n' h')"

definition toList :: "size_t \<Rightarrow> 'a option list \<Rightarrow> addr option \<Rightarrow> 'a heap \<Rightarrow> List \<times> 'a heap" where
  "toList sz rs n h = (case toList_loop rs n h of (n', h') \<Rightarrow> (List_mk sz n', h'))"

text \<open>\<^verbatim>\<open>toList\<close> with the default argument \<^verbatim>\<open>head = Node::create()\<close>.\<close>

definition toList_nil :: "size_t \<Rightarrow> 'a option list \<Rightarrow> 'a heap \<Rightarrow> List \<times> 'a heap" where
  "toList_nil sz rs h = (case Node_create_nil h of (n, h') \<Rightarrow> toList sz rs n h')"

subsection \<open>Constructors\<close>

text \<open>\<^verbatim>\<open>List()\<close>\<close>

definition List_empty :: "'a heap \<Rightarrow> List \<times> 'a heap" where
  "List_empty h = (case Node_create_nil h of (nd, h') \<Rightarrow> (\<lparr>size_m = 0, node_m = nd\<rparr>, h'))"

text \<open>\<^verbatim>\<open>List(A x)\<close>\<close>

definition List_single :: "'a \<Rightarrow> 'a heap \<Rightarrow> List \<times> 'a heap" where
  "List_single x h =
     (case Node_create_nil h of (nil, h1) \<Rightarrow>
      case Node_create (Some x) nil h1 of (nd, h2) \<Rightarrow> (\<lparr>size_m = 1, node_m = nd\<rparr>, h2))"

text \<open>\<^verbatim>\<open>List(A head, List tail)\<close>\<close>

definition List_cons :: "'a \<Rightarrow> List \<Rightarrow> 'a heap \<Rightarrow> List \<times> 'a heap" where
  "List_cons x t h =
     (case Node_create (Some x) (node_m t) h of (nd, h') \<Rightarrow>
        (\<lparr>size_m = size_m t + 1, node_m = nd\<rparr>, h'))"

text \<open>
  \<^verbatim>\<open>List(A head, Args&&... tail)\<close> delegates to
  \<^verbatim>\<open>List(head, List(tail...))\<close>; with one argument overload resolution picks
  \<^verbatim>\<open>List(A x)\<close>.
\<close>

fun List_variadic :: "'a \<Rightarrow> 'a list \<Rightarrow> 'a heap \<Rightarrow> List \<times> 'a heap" where
  "List_variadic x [] h = List_single x h"
| "List_variadic x (y # ys) h = (case List_variadic y ys h of (t, h') \<Rightarrow> List_cons x t h')"


subsection \<open>Accessors\<close>

definition List_isEmpty :: "List \<Rightarrow> bool" where
  "List_isEmpty l = (size_m l = 0)"

definition List_size :: "List \<Rightarrow> size_t" where
  "List_size l = size_m l"

definition List_head :: "'a heap \<Rightarrow> List \<Rightarrow> (exn + 'a) option" where
  "List_head h l =
     (if List_isEmpty l then Some (Inl (out_of_range ''head of empty list''))
      else do { nd \<leftarrow> deref h (node_m l); x \<leftarrow> head nd; Some (Inr x) })"

definition List_tail :: "'a heap \<Rightarrow> List \<Rightarrow> (exn + List) option" where
  "List_tail h l =
     (if List_isEmpty l then Some (Inl (out_of_range ''tail of empty list''))
      else do { nd \<leftarrow> deref h (node_m l); Some (Inr (List_mk (List_size l - 1) (tail nd))) })"

text \<open>
  The loop \<^verbatim>\<open>for (; index > 0; n = n->tail.get(), --index) {}\<close> of
  \<^verbatim>\<open>operator[]\<close>, which is also the loop
  \<^verbatim>\<open>for (i = 0; i < n; pn = &(*pn)->tail, ++i) {}\<close> of \<^verbatim>\<open>drop\<close>: it follows
  the tail pointer \<open>k\<close> times, where \<open>k\<close> is the value of the counter.
\<close>

fun follow_tail :: "'a heap \<Rightarrow> nat \<Rightarrow> addr option \<Rightarrow> addr option option" where
  "follow_tail h 0 n = Some n"
| "follow_tail h (Suc k) n = do { nd \<leftarrow> deref h n; follow_tail h k (tail nd) }"

text \<open>\<^verbatim>\<open>operator[]\<close>\<close>

definition List_at :: "'a heap \<Rightarrow> List \<Rightarrow> size_t \<Rightarrow> (exn + 'a) option" where
  "List_at h l index =
     (if index \<ge> List_size l then Some (Inl (out_of_range ''index out of range''))
      else do {
        n \<leftarrow> follow_tail h (unat index) (node_m l);
        nd \<leftarrow> deref h n;
        x \<leftarrow> head nd;
        Some (Inr x)
      })"

text \<open>
  The loop \<^verbatim>\<open>for (auto nd = node_.get(); n > 0; nd = nd->tail.get(), --n) buf.emplace_back(nd->head);\<close>
  of \<^verbatim>\<open>take\<close>; \<^verbatim>\<open>updated\<close> has the same loop and goes on with the node
  pointer the loop ends at. The counter is given by its value.
\<close>

fun take_loop ::
  "'a heap \<Rightarrow> nat \<Rightarrow> addr option \<Rightarrow> 'a option list \<Rightarrow> ('a option list \<times> addr option) option" where
  "take_loop h 0 nd buf = Some (buf, nd)"
| "take_loop h (Suc n) nd buf =
     do { node \<leftarrow> deref h nd; take_loop h n (tail node) (buf @ [head node]) }"

definition List_take :: "'a heap \<Rightarrow> List \<Rightarrow> size_t \<Rightarrow> (List \<times> 'a heap) option" where
  "List_take h l n =
     (let n = min n (List_size l) in
      do {
        (buf, nd) \<leftarrow> take_loop h (unat n) (node_m l) [];
        Some (toList_nil (of_nat (length buf)) (rev buf) h)
      })"

definition List_drop :: "'a heap \<Rightarrow> List \<Rightarrow> size_t \<Rightarrow> (List \<times> 'a heap) option" where
  "List_drop h l n =
     (if n \<ge> List_size l then Some (List_empty h)
      else do {
        pn \<leftarrow> follow_tail h (unat n) (node_m l);
        Some (List_mk (List_size l - n) pn, h)
      })"

definition List_takeRight :: "'a heap \<Rightarrow> List \<Rightarrow> size_t \<Rightarrow> (List \<times> 'a heap) option" where
  "List_takeRight h l n = List_drop h l (List_size l - min n (List_size l))"

definition List_dropRight :: "'a heap \<Rightarrow> List \<Rightarrow> size_t \<Rightarrow> (List \<times> 'a heap) option" where
  "List_dropRight h l n = List_take h l (List_size l - min n (List_size l))"

definition List_uncons :: "'a heap \<Rightarrow> List \<Rightarrow> (exn + 'a \<times> List) option" where
  "List_uncons h l =
     (if List_isEmpty l then Some (Inl (out_of_range ''uncons on empty list''))
      else case List_head h l of
             None \<Rightarrow> None
           | Some (Inl e) \<Rightarrow> Some (Inl e)
           | Some (Inr x) \<Rightarrow>
               (case List_tail h l of
                  None \<Rightarrow> None
                | Some (Inl e) \<Rightarrow> Some (Inl e)
                | Some (Inr t) \<Rightarrow> Some (Inr (x, t))))"

definition List_last :: "'a heap \<Rightarrow> List \<Rightarrow> (exn + 'a) option" where
  "List_last h l =
     (if List_isEmpty l then Some (Inl (out_of_range ''last of empty list''))
      else List_at h l (List_size l - 1))"

definition List_init :: "'a heap \<Rightarrow> List \<Rightarrow> (exn + List \<times> 'a heap) option" where
  "List_init h l =
     (if List_isEmpty l then Some (Inl (out_of_range ''init of empty list''))
      else do { r \<leftarrow> List_take h l (List_size l - 1); Some (Inr r) })"

subsection \<open>Transformations\<close>


definition List_filter :: "('a \<Rightarrow> bool) \<Rightarrow> 'a heap \<Rightarrow> List \<Rightarrow> (List \<times> 'a heap) option" where
  "List_filter p h l =
     do {
       (h', buf) \<leftarrow> foreachImpl (node_m l)
          (\<lambda>x (h, buf). (h, if p x then buf @ [Some x] else buf)) (h, []);
       Some (toList_nil (of_nat (length buf)) (rev buf) h')
     }"

definition List_filterNot :: "('a \<Rightarrow> bool) \<Rightarrow> 'a heap \<Rightarrow> List \<Rightarrow> (List \<times> 'a heap) option" where
  "List_filterNot p h l = List_filter (\<lambda>x. \<not> p x) h l"


text \<open>
  The loop \<^verbatim>\<open>for (auto n = node_.get(); n->head && p(*(n->head)); n = n->tail.get()) buf.emplace_back(n->head);\<close>
\<close>

partial_function (option) takeWhile_loop ::
  "'a heap \<Rightarrow> ('a \<Rightarrow> bool) \<Rightarrow> addr option \<Rightarrow> 'a option list \<Rightarrow> 'a option list option" where
  "takeWhile_loop h p n buf =
     (case deref h n of
        None \<Rightarrow> None
      | Some nd \<Rightarrow>
          (case head nd of
             None \<Rightarrow> Some buf
           | Some x \<Rightarrow>
               if p x then takeWhile_loop h p (tail nd) (buf @ [head nd]) else Some buf))"


text \<open>
  The loop \<^verbatim>\<open>for (; (*pn)->head && p(*((*pn)->head)); --s, pn = &(*pn)->tail) {}\<close>
\<close>

partial_function (option) dropWhile_loop ::
  "'a heap \<Rightarrow> ('a \<Rightarrow> bool) \<Rightarrow> size_t \<Rightarrow> addr option \<Rightarrow> (size_t \<times> addr option) option" where
  "dropWhile_loop h p s pn =
     (case deref h pn of
        None \<Rightarrow> None
      | Some nd \<Rightarrow>
          (case head nd of
             None \<Rightarrow> Some (s, pn)
           | Some x \<Rightarrow>
               if p x then dropWhile_loop h p (s - 1) (tail nd) else Some (s, pn)))"



text \<open>
  \<^verbatim>\<open>flatMap\<close>: the function \<open>f\<close> builds a \<^verbatim>\<open>List<B>\<close>, so it works on the store of
  the \<^verbatim>\<open>B\<close> nodes; the closure's variables are that store and the buffer, and are
  lost (\<open>None\<close>) when \<open>f\<close> or the inner traversal is undefined.
\<close>

definition List_flatMap ::
  "('a \<Rightarrow> 'b heap \<Rightarrow> (List \<times> 'b heap) option) \<Rightarrow> 'a heap \<Rightarrow> List \<Rightarrow> 'b heap
   \<Rightarrow> (List \<times> 'b heap) option" where
  "List_flatMap f h l hb =
     do {
       (h', st) \<leftarrow> foreachImpl (node_m l)
          (\<lambda>x (h, st). (h,
             do {
               (hb, buf) \<leftarrow> st;
               (ys, hb1) \<leftarrow> f x hb;
               foreachImpl (node_m ys) (\<lambda>y (hb, buf). (hb, buf @ [Some y])) (hb1, buf)
             }))
          (h, Some (hb, []));
       (hb', buf) \<leftarrow> st;
       Some (toList_nil (of_nat (length buf)) (rev buf) hb')
     }"


subsection \<open>Queries\<close>

text \<open>
  \<^verbatim>\<open>exists\<close> and \<^verbatim>\<open>forall\<close> return their result together with the log of the
  calls of the predicate: the elements \<open>p\<close> was applied to, in the order of the calls.
\<close>

partial_function (option) exists_loop ::
  "'a heap \<Rightarrow> ('a \<Rightarrow> bool) \<Rightarrow> addr option \<Rightarrow> 'a list \<Rightarrow> (bool \<times> 'a list) option" where
  "exists_loop h p n calls =
     (case deref h n of
        None \<Rightarrow> None
      | Some nd \<Rightarrow>
          (case head nd of
             None \<Rightarrow> Some (False, calls)
           | Some x \<Rightarrow>
               if p x then Some (True, calls @ [x])
               else exists_loop h p (tail nd) (calls @ [x])))"

definition List_exists :: "('a \<Rightarrow> bool) \<Rightarrow> 'a heap \<Rightarrow> List \<Rightarrow> (bool \<times> 'a list) option" where
  "List_exists p h l = exists_loop h p (node_m l) []"

partial_function (option) forall_loop ::
  "'a heap \<Rightarrow> ('a \<Rightarrow> bool) \<Rightarrow> addr option \<Rightarrow> 'a list \<Rightarrow> (bool \<times> 'a list) option" where
  "forall_loop h p n calls =
     (case deref h n of
        None \<Rightarrow> None
      | Some nd \<Rightarrow>
          (case head nd of
             None \<Rightarrow> Some (True, calls)
           | Some x \<Rightarrow>
               if \<not> p x then Some (False, calls @ [x])
               else forall_loop h p (tail nd) (calls @ [x])))"

definition List_forall :: "('a \<Rightarrow> bool) \<Rightarrow> 'a heap \<Rightarrow> List \<Rightarrow> (bool \<times> 'a list) option" where
  "List_forall p h l = forall_loop h p (node_m l) []"

subsection \<open>Building on an existing list\<close>


definition List_concat :: "'a heap \<Rightarrow> List \<Rightarrow> List \<Rightarrow> (List \<times> 'a heap) option" where
  "List_concat h l that =
     (if List_isEmpty l then Some (that, h)
      else if List_isEmpty that then Some (l, h)
      else do {
        (h', buf) \<leftarrow> foreachImpl (node_m l) (\<lambda>x (h, buf). (h, buf @ [Some x])) (h, []);
        Some (toList (List_size l + List_size that) (rev buf) (node_m that) h')
      })"

definition List_updated :: "'a heap \<Rightarrow> List \<Rightarrow> size_t \<Rightarrow> 'a \<Rightarrow> (exn + List \<times> 'a heap) option" where
  "List_updated h l index v =
     (if index \<ge> List_size l then Some (Inl (out_of_range ''index out of range''))
      else do {
        (buf, n) \<leftarrow> take_loop h (unat index) (node_m l) [];
        nd \<leftarrow> deref h n;
        case Node_create (Some v) (tail nd) h of (c, h1) \<Rightarrow>
          Some (Inr (toList (List_size l) (rev buf) c h1))
      })"

subsection \<open>Folds, scans and reductions\<close>

definition List_foldLeft :: "'b \<Rightarrow> ('b \<Rightarrow> 'a \<Rightarrow> 'b) \<Rightarrow> 'a heap \<Rightarrow> List \<Rightarrow> 'b option" where
  "List_foldLeft z op h l =
     do { (h', z') \<leftarrow> foreachImpl (node_m l) (\<lambda>x (h, z). (h, op z x)) (h, z); Some z' }"





definition List_reduceLeft :: "('a \<Rightarrow> 'a \<Rightarrow> 'a) \<Rightarrow> 'a heap \<Rightarrow> List \<Rightarrow> (exn + 'a) option" where
  "List_reduceLeft op h l =
     (if List_isEmpty l then Some (Inl (out_of_range ''reduceLeft on empty list''))
      else case List_tail h l of
             None \<Rightarrow> None
           | Some (Inl e) \<Rightarrow> Some (Inl e)
           | Some (Inr t) \<Rightarrow>
               (case List_head h l of
                  None \<Rightarrow> None
                | Some (Inl e) \<Rightarrow> Some (Inl e)
                | Some (Inr x) \<Rightarrow> do { r \<leftarrow> List_foldLeft x op h t; Some (Inr r) }))"

definition List_reduce :: "('a \<Rightarrow> 'a \<Rightarrow> 'a) \<Rightarrow> 'a heap \<Rightarrow> List \<Rightarrow> (exn + 'a) option" where
  "List_reduce op h l =
     (if List_isEmpty l then Some (Inl (out_of_range ''reduce on empty list''))
      else List_reduceLeft op h l)"

text \<open>
  \<^verbatim>\<open>reduceRight\<close>: \<^verbatim>\<open>buf.back()\<close> is the first element of the reversed buffer
  (undefined on an empty vector), and the loop runs over the rest of the reversed buffer.
\<close>

definition List_reduceRight :: "('a \<Rightarrow> 'a \<Rightarrow> 'a) \<Rightarrow> 'a heap \<Rightarrow> List \<Rightarrow> (exn + 'a) option" where
  "List_reduceRight op h l =
     (if List_isEmpty l then Some (Inl (out_of_range ''reduceRight on empty list''))
      else do {
        (h', buf) \<leftarrow> foreachImpl (node_m l) (\<lambda>x (h, buf). (h, buf @ [x])) (h, []);
        case rev buf of
          [] \<Rightarrow> None
        | b # it \<Rightarrow> Some (Inr (fold (\<lambda>x acc. op x acc) it b))
      })"

subsection \<open>Sorting\<close>

text \<open>
  \<^verbatim>\<open>std::sort\<close> and \<^verbatim>\<open>std::stable_sort\<close> belong to the C++ standard library; they
  are parameters of \<^verbatim>\<open>sorted\<close>, taking the comparator and the vector and returning the
  vector after the call. The comparator \<^verbatim>\<open>comp\<close> compares what two element pointers
  point to.
\<close>

definition List_sorted ::
  "(('a option \<Rightarrow> 'a option \<Rightarrow> bool) \<Rightarrow> 'a option list \<Rightarrow> 'a option list) \<Rightarrow>
   (('a option \<Rightarrow> 'a option \<Rightarrow> bool) \<Rightarrow> 'a option list \<Rightarrow> 'a option list) \<Rightarrow>
   ('a \<Rightarrow> 'a \<Rightarrow> bool) \<Rightarrow> bool \<Rightarrow> 'a heap \<Rightarrow> List \<Rightarrow> (List \<times> 'a heap) option" where
  "List_sorted std_sort std_stable_sort lt stable_flag h l =
     do {
       (h', buf) \<leftarrow> foreachImpl (node_m l) (\<lambda>x (h, buf). (h, buf @ [Some x])) (h, []);
       let comp = (\<lambda>x y. lt (the x) (the y));
           buf' = (if stable_flag then std_stable_sort comp buf else std_sort comp buf)
       in Some (toList_nil (List_size l) (rev buf') h')
     }"


subsection \<open>Pairing\<close>



subsection \<open>Equality\<close>

text \<open>
  \<^verbatim>\<open>operator==\<close>. The loop compares the elements with the \<^verbatim>\<open>operator!=\<close> of the
  element type, which is the parameter \<open>ne\<close>: it need not be the negation of an
  equivalence (for a \<^verbatim>\<open>double\<close>, \<^verbatim>\<open>NaN != NaN\<close> is true). The shortcut
  \<^verbatim>\<open>this == &that\<close> compares the addresses of the two handle objects; handles are
  values here, so the parameter \<open>same\<close> says whether the two operands are one and the
  same handle object.
\<close>

partial_function (option) eq_loop ::
  "('a \<Rightarrow> 'a \<Rightarrow> bool) \<Rightarrow> 'a heap \<Rightarrow> addr option \<Rightarrow> addr option \<Rightarrow> bool option" where
  "eq_loop ne h n1 n2 =
     (case deref h n1 of
        None \<Rightarrow> None
      | Some nd1 \<Rightarrow>
          (case head nd1 of
             None \<Rightarrow> Some True
           | Some x \<Rightarrow>
               (case deref h n2 of
                  None \<Rightarrow> None
                | Some nd2 \<Rightarrow>
                    (case head nd2 of
                       None \<Rightarrow> None
                     | Some y \<Rightarrow>
                         if ne x y then Some False else eq_loop ne h (tail nd1) (tail nd2)))))"

definition List_eq :: "('a \<Rightarrow> 'a \<Rightarrow> bool) \<Rightarrow> bool \<Rightarrow> 'a heap \<Rightarrow> List \<Rightarrow> List \<Rightarrow> bool option" where
  "List_eq ne same h l that =
     (if same then Some True
      else if List_size l \<noteq> List_size that then Some False
      else eq_loop ne h (node_m l) (node_m that))"

text \<open>
  The expression \<^verbatim>\<open>xs.take(n).concat(xs.drop(n)) == xs\<close>: the prefix is built first,
  then the suffix in the store the prefix was built in, and the left operand of
  \<^verbatim>\<open>==\<close> is a temporary, so the two operands are not the same object.
\<close>

definition take_concat_drop_eq ::
  "('a \<Rightarrow> 'a \<Rightarrow> bool) \<Rightarrow> 'a heap \<Rightarrow> List \<Rightarrow> size_t \<Rightarrow> bool option" where
  "take_concat_drop_eq ne h xs n =
     do {
       (t, h1) \<leftarrow> List_take h xs n;
       (d, h2) \<leftarrow> List_drop h1 xs n;
       (c, h3) \<leftarrow> List_concat h2 t d;
       List_eq ne False h3 c xs
     }"

section \<open>Well-formed lists\<close>

text \<open>
  \<open>chain h n xs\<close>: starting at pointer \<open>n\<close>, the store \<open>h\<close> holds cons nodes with the
  elements \<open>xs\<close>, in this order, followed by a nil node (a node with a null head).
\<close>

fun chain :: "'a heap \<Rightarrow> addr option \<Rightarrow> 'a list \<Rightarrow> bool" where
  "chain h n [] = (case deref h n of None \<Rightarrow> False | Some nd \<Rightarrow> head nd = None)"
| "chain h n (x # xs) =
     (case deref h n of None \<Rightarrow> False | Some nd \<Rightarrow> head nd = Some x \<and> chain h (tail nd) xs)"

text \<open>\<open>valid h l xs\<close>: in the store \<open>h\<close>, the handle \<open>l\<close> is a list with the elements \<open>xs\<close>.\<close>

definition valid :: "'a heap \<Rightarrow> List \<Rightarrow> 'a list \<Rightarrow> bool" where
  "valid h l xs = (chain h (node_m l) xs \<and> unat (size_m l) = length xs)"

text \<open>
  The handle invariant, computed on the store: \<open>countCons h n\<close> walks the chain from
  \<open>n\<close> and counts the cons nodes before the first nil node; a handle satisfies the
  invariant when this count is its cached size and the size is zero exactly when the root
  is a nil node.
\<close>

partial_function (option) countCons :: "'a heap \<Rightarrow> addr option \<Rightarrow> nat option" where
  "countCons h n =
     (case deref h n of
        None \<Rightarrow> None
      | Some nd \<Rightarrow>
          (case head nd of
             None \<Rightarrow> Some 0
           | Some x \<Rightarrow> Option.bind (countCons h (tail nd)) (\<lambda>k. Some (Suc k))))"



text \<open>
  The node chain of a list: the pointers to its nodes from the root to the nil node, in
  the order of the chain.
\<close>

partial_function (option) node_chain :: "'a heap \<Rightarrow> addr option \<Rightarrow> addr option list option" where
  "node_chain h n =
     (case deref h n of
        None \<Rightarrow> None
      | Some nd \<Rightarrow>
          (case head nd of
             None \<Rightarrow> Some [n]
           | Some x \<Rightarrow> Option.bind (node_chain h (tail nd)) (\<lambda>ns. Some (n # ns))))"

section \<open>Reference functions\<close>



text \<open>
  The requirements of the C++ standard on a comparator (\<^verbatim>\<open>Compare\<close>): it is
  irreflexive and transitive, and the equivalence it induces (neither element is less
  than the other) is transitive.
\<close>

definition equiv_under :: "('a \<Rightarrow> 'a \<Rightarrow> bool) \<Rightarrow> 'a \<Rightarrow> 'a \<Rightarrow> bool" where
  "equiv_under lt x y = (\<not> lt x y \<and> \<not> lt y x)"

definition strict_weak_order :: "('a \<Rightarrow> 'a \<Rightarrow> bool) \<Rightarrow> bool" where
  "strict_weak_order lt =
     ((\<forall>x. \<not> lt x x) \<and>
      (\<forall>x y z. lt x y \<longrightarrow> lt y z \<longrightarrow> lt x z) \<and>
      (\<forall>x y z. equiv_under lt x y \<longrightarrow> equiv_under lt y z \<longrightarrow> equiv_under lt x z))"

text \<open>
  The contract of \<^verbatim>\<open>std::sort\<close>: called with such a comparator, it leaves a
  permutation of the vector in which no element is less than an element before it.
  \<^verbatim>\<open>std::stable_sort\<close> moreover keeps the relative order of equivalent elements.
\<close>

definition sorts :: "(('e \<Rightarrow> 'e \<Rightarrow> bool) \<Rightarrow> 'e list \<Rightarrow> 'e list) \<Rightarrow> bool" where
  "sorts srt =
     (\<forall>cmp v. strict_weak_order cmp \<longrightarrow>
        mset (srt cmp v) = mset v \<and> sorted_wrt (\<lambda>a b. \<not> cmp b a) (srt cmp v))"

definition sorts_stably :: "(('e \<Rightarrow> 'e \<Rightarrow> bool) \<Rightarrow> 'e list \<Rightarrow> 'e list) \<Rightarrow> bool" where
  "sorts_stably srt =
     (sorts srt \<and>
      (\<forall>cmp v x. strict_weak_order cmp \<longrightarrow>
         filter (equiv_under cmp x) (srt cmp v) = filter (equiv_under cmp x) v))"

text \<open>Insertion sort with a comparator: a sorting function that meets both contracts.\<close>

fun insert_by :: "('e \<Rightarrow> 'e \<Rightarrow> bool) \<Rightarrow> 'e \<Rightarrow> 'e list \<Rightarrow> 'e list" where
  "insert_by cmp x [] = [x]"
| "insert_by cmp x (y # ys) = (if cmp y x then y # insert_by cmp x ys else x # y # ys)"

fun insertion_sort :: "('e \<Rightarrow> 'e \<Rightarrow> bool) \<Rightarrow> 'e list \<Rightarrow> 'e list" where
  "insertion_sort cmp [] = []"
| "insertion_sort cmp (x # xs) = insert_by cmp x (insertion_sort cmp xs)"

text \<open>The recursion equations of the loops are their code equations.\<close>

declare
  foreachImpl.simps [code]
  takeWhile_loop.simps [code]
  dropWhile_loop.simps [code]
  exists_loop.simps [code]
  forall_loop.simps [code]
  eq_loop.simps [code]
  countCons.simps [code]
  node_chain.simps [code]

section \<open>Examples\<close>

text \<open>\<^verbatim>\<open>List<int>(1, 2, 4, 5, 6)\<close> built in the empty store.\<close>

definition xs_12456 :: "List \<times> int heap" where
  "xs_12456 = List_variadic 1 [2, 4, 5, 6] []"

text \<open>\<^verbatim>\<open>List<int>()\<close>, \<^verbatim>\<open>List<int>(1)\<close> and \<^verbatim>\<open>List<int>(3, 1, 2)\<close>, each built in the empty store.\<close>

definition xs_empty :: "List \<times> int heap" where
  "xs_empty = List_empty []"

definition xs_1 :: "List \<times> int heap" where
  "xs_1 = List_single 1 []"

definition xs_312 :: "List \<times> int heap" where
  "xs_312 = List_variadic 3 [1, 2] []"

text \<open>
  The values of a \<^verbatim>\<open>double\<close> that the example needs, the not-a-number and the
  integers, with the \<^verbatim>\<open>!=\<close> of \<^verbatim>\<open>double\<close> on them: a NaN is unequal to every
  value, itself included. \<^verbatim>\<open>List<double>(NaN, 1.0)\<close> built in the empty store.
\<close>

datatype double = NaN | Num int

fun ne_double :: "double \<Rightarrow> double \<Rightarrow> bool" where
  "ne_double (Num a) (Num b) = (a \<noteq> b)"
| "ne_double _ _ = True"

definition xs_nan :: "List \<times> double heap" where
  "xs_nan = List_variadic NaN [Num 1] []"



section \<open>Basic facts\<close>

lemma chain_Nil_iff: "chain h n [] \<longleftrightarrow> (\<exists>nd. deref h n = Some nd \<and> head nd = None)"
  by (auto split: option.splits)

lemma chain_Cons_iff:
  "chain h n (x # xs) \<longleftrightarrow> (\<exists>nd. deref h n = Some nd \<and> head nd = Some x \<and> chain h (tail nd) xs)"
  by (auto split: option.splits)

declare chain.simps [simp del]

lemma chain_ConsE:
  assumes "chain h n (x # xs)"
  obtains nd where "deref h n = Some nd" "head nd = Some x" "chain h (tail nd) xs"
  using assms by (auto simp: chain_Cons_iff)

lemma chain_NilE:
  assumes "chain h n []"
  obtains nd where "deref h n = Some nd" "head nd = None"
  using assms by (auto simp: chain_Nil_iff)

lemma deref_prefix: "prefix h h' \<Longrightarrow> deref h p = Some nd \<Longrightarrow> deref h' p = Some nd"
  by (auto simp: deref_def prefix_def nth_append split: option.splits if_splits)

lemma chain_prefix: "prefix h h' \<Longrightarrow> chain h n xs \<Longrightarrow> chain h' n xs"
proof (induction xs arbitrary: n)
  case Nil
  then show ?case by (auto simp: chain_Nil_iff dest: deref_prefix)
next
  case (Cons x xs)
  from Cons.prems(2) obtain nd where nd: "deref h n = Some nd" "head nd = Some x" "chain h (tail nd) xs"
    by (rule chain_ConsE)
  from deref_prefix[OF Cons.prems(1) nd(1)] Cons.IH[OF Cons.prems(1) nd(3)] nd(2)
  show ?case by (simp add: chain_Cons_iff)
qed

lemma valid_prefix: "prefix h h' \<Longrightarrow> valid h l xs \<Longrightarrow> valid h' l xs"
  by (simp add: valid_def chain_prefix)

lemma chain_unique: "chain h n xs \<Longrightarrow> chain h n ys \<Longrightarrow> xs = ys"
proof (induction xs arbitrary: n ys)
  case Nil
  then show ?case by (cases ys) (auto simp: chain_Nil_iff chain_Cons_iff)
next
  case (Cons x xs)
  then show ?case by (cases ys) (auto simp: chain_Nil_iff chain_Cons_iff)
qed

lemma Node_create_nil_chain:
  "Node_create_nil h = (n, h') \<Longrightarrow> chain h' n [] \<and> prefix h h'"
  by (auto simp: Node_create_nil_def deref_def chain_Nil_iff)

lemma Node_create_chain:
  assumes "Node_create (Some x) t h = (n, h')" "chain h t xs"
  shows "chain h' n (x # xs) \<and> prefix h h'"
proof -
  from assms(1) have h': "h' = h @ [\<lparr>head = Some x, tail = t\<rparr>]" and n: "n = Some (length h)"
    by (auto simp: Node_create_def)
  have p: "prefix h h'" by (simp add: h')
  from chain_prefix[OF p assms(2)] show ?thesis
    by (simp add: p) (simp add: h' n deref_def chain_Cons_iff)
qed

lemma toList_loop_chain:
  "toList_loop (map Some rs) n0 h = (n, h') \<Longrightarrow> chain h n0 ys
   \<Longrightarrow> chain h' n (rev rs @ ys) \<and> prefix h h'"
proof (induction rs arbitrary: n0 h ys)
  case Nil
  then show ?case by simp
next
  case (Cons r rs)
  obtain n1 h1 where c: "Node_create (Some r) n0 h = (n1, h1)" by fastforce
  from Node_create_chain[OF c Cons.prems(2)] have 1: "chain h1 n1 (r # ys)" "prefix h h1" by auto
  from Cons.prems(1) c have "toList_loop (map Some rs) n1 h1 = (n, h')" by simp
  from Cons.IH[OF this 1(1)] 1(2) show ?case by (auto intro: prefix_order.trans)
qed

lemma toList_valid:
  assumes "toList sz (map Some rs) n0 h = (l, h')" "chain h n0 ys"
    "unat sz = length rs + length ys"
  shows "valid h' l (rev rs @ ys) \<and> prefix h h'"
proof -
  obtain n h1 where c: "toList_loop (map Some rs) n0 h = (n, h1)" by fastforce
  with assms(1) have "l = List_mk sz n" "h' = h1" by (auto simp: toList_def)
  with toList_loop_chain[OF c assms(2)] assms(3) show ?thesis
    by (simp add: valid_def List_mk_def)
qed

lemma toList_nil_valid:
  assumes "toList_nil sz (map Some rs) h = (l, h')" "unat sz = length rs"
  shows "valid h' l (rev rs) \<and> prefix h h'"
proof -
  obtain n0 h1 where c: "Node_create_nil h = (n0, h1)" by fastforce
  from Node_create_nil_chain[OF c] have 1: "chain h1 n0 []" "prefix h h1" by auto
  from assms(1) c have "toList sz (map Some rs) n0 h1 = (l, h')" by (simp add: toList_nil_def)
  from toList_valid[OF this 1(1)] assms(2) 1(2) show ?thesis
    by (auto intro: prefix_order.trans)
qed

text \<open>A closure that does not touch the store makes \<open>foreachImpl\<close> a left fold.\<close>

lemma foreachImpl_fold:
  "chain h n xs \<Longrightarrow>
   foreachImpl n (\<lambda>x (h, s). (h, g x s)) (h, s) = Some (h, fold g xs s)"
proof (induction xs arbitrary: n s)
  case Nil
  then show ?case by (subst foreachImpl.simps) (auto simp: chain_Nil_iff)
next
  case (Cons x xs)
  from Cons.prems obtain nd where nd: "deref h n = Some nd" "head nd = Some x" "chain h (tail nd) xs"
    by (rule chain_ConsE)
  show ?case by (subst foreachImpl.simps) (simp add: nd Cons.IH[OF nd(3)])
qed

lemma fold_snoc_filter:
  "fold (\<lambda>x buf. if p x then buf @ [Some x] else buf) xs acc = acc @ map Some (filter p xs)"
  by (induction xs arbitrary: acc) auto

lemma unat_of_nat_length:
  "n < 2 ^ 64 \<Longrightarrow> unat (of_nat n :: size_t) = n"
  by (simp add: unat_of_nat)

lemma valid_length_bound: "valid h l xs \<Longrightarrow> length xs < 2 ^ 64"
proof -
  assume "valid h l xs"
  then have "length xs = unat (size_m l)" by (simp add: valid_def)
  also have "\<dots> < 2 ^ 64" using unsigned_less[of "size_m l"] by simp
  finally show ?thesis .
qed

lemma List_filter_valid:
  assumes "valid h l xs"
  shows "\<exists>l' h'. List_filter p h l = Some (l', h') \<and> valid h' l' (filter p xs) \<and> prefix h h'"
proof -
  from assms have c: "chain h (node_m l) xs" by (simp add: valid_def)
  let ?buf = "map Some (filter p xs)"
  obtain l' h' where t: "toList_nil (of_nat (length ?buf)) (rev ?buf) h = (l', h')" by fastforce
  have f: "List_filter p h l = Some (l', h')"
    using t by (simp add: List_filter_def foreachImpl_fold[OF c] fold_snoc_filter rev_map)
  have "length (filter p xs) \<le> length xs" by simp
  from this valid_length_bound[OF assms] have "length (filter p xs) < 2 ^ 64"
    by (rule le_less_trans)
  then have u: "unat (of_nat (length ?buf) :: size_t) = length (rev (filter p xs))"
    by (simp add: unat_of_nat_length)
  from t have "toList_nil (of_nat (length ?buf)) (map Some (rev (filter p xs))) h = (l', h')"
    by (simp add: rev_map)
  from toList_nil_valid[OF this u] f show ?thesis by simp
qed

lemma word_add_eqI: "unat a + unat b = unat c \<Longrightarrow> a + b = c" for c :: size_t
proof -
  assume e: "unat a + unat b = unat c"
  have "unat c < 2 ^ LENGTH(64)" by (rule unsigned_less)
  with e have "unat a + unat b < 2 ^ LENGTH(64)" by simp
  then have "unat (a + b) = unat a + unat b" by (rule unat_add_lem[THEN iffD1])
  with e show ?thesis by (simp add: word_unat_eq_iff)
qed

lemma follow_tail_chain:
  "chain h n xs \<Longrightarrow> k \<le> length xs \<Longrightarrow>
   \<exists>m. follow_tail h k n = Some m \<and> chain h m (drop k xs)"
proof (induction k arbitrary: n xs)
  case 0
  then show ?case by simp
next
  case (Suc k)
  then obtain y ys where xs: "xs = y # ys" by (cases xs) auto
  with Suc.prems obtain nd where nd: "deref h n = Some nd" "chain h (tail nd) ys"
    by (auto simp: chain_Cons_iff)
  from Suc.IH[OF nd(2)] Suc.prems(2) xs show ?case by (simp add: nd)
qed

lemma take_loop_chain:
  "chain h n xs \<Longrightarrow> k \<le> length xs \<Longrightarrow>
   \<exists>m. take_loop h k n buf = Some (buf @ map Some (take k xs), m) \<and> chain h m (drop k xs)"
proof (induction k arbitrary: n xs buf)
  case 0
  then show ?case by simp
next
  case (Suc k)
  then obtain y ys where xs: "xs = y # ys" by (cases xs) auto
  with Suc.prems obtain nd where nd: "deref h n = Some nd" "head nd = Some y" "chain h (tail nd) ys"
    by (auto simp: chain_Cons_iff)
  from Suc.IH[OF nd(3), of "buf @ [Some y]"] Suc.prems(2) xs show ?case by (simp add: nd)
qed



lemma exists_loop_chain:
  "chain h n xs \<Longrightarrow>
   exists_loop h p n calls =
     Some (list_ex p xs, calls @ takeWhile (\<lambda>x. \<not> p x) xs @ take 1 (dropWhile (\<lambda>x. \<not> p x) xs))"
proof (induction xs arbitrary: n calls)
  case Nil
  then show ?case by (subst exists_loop.simps) (auto simp: chain_Nil_iff)
next
  case (Cons x xs)
  from Cons.prems obtain nd where nd: "deref h n = Some nd" "head nd = Some x" "chain h (tail nd) xs"
    by (rule chain_ConsE)
  show ?case by (subst exists_loop.simps) (simp add: nd Cons.IH[OF nd(3)])
qed

lemma forall_loop_chain:
  "chain h n xs \<Longrightarrow>
   forall_loop h p n calls =
     Some (list_all p xs, calls @ takeWhile p xs @ take 1 (dropWhile p xs))"
proof (induction xs arbitrary: n calls)
  case Nil
  then show ?case by (subst forall_loop.simps) (auto simp: chain_Nil_iff)
next
  case (Cons x xs)
  from Cons.prems obtain nd where nd: "deref h n = Some nd" "head nd = Some x" "chain h (tail nd) xs"
    by (rule chain_ConsE)
  show ?case by (subst forall_loop.simps) (simp add: nd Cons.IH[OF nd(3)])
qed

lemma eq_loop_chain:
  "chain h n1 xs \<Longrightarrow> chain h n2 ys \<Longrightarrow> length xs = length ys \<Longrightarrow>
   eq_loop ne h n1 n2 = Some (list_all2 (\<lambda>x y. \<not> ne x y) xs ys)"
proof (induction xs arbitrary: n1 n2 ys)
  case Nil
  then show ?case by (subst eq_loop.simps) (auto simp: chain_Nil_iff)
next
  case (Cons x xs)
  from Cons.prems(3) obtain y ys' where ys: "ys = y # ys'" by (cases ys) auto
  from Cons.prems(1) obtain nd1 where
    nd1: "deref h n1 = Some nd1" "head nd1 = Some x" "chain h (tail nd1) xs"
    by (rule chain_ConsE)
  from Cons.prems(2) ys obtain nd2 where
    nd2: "deref h n2 = Some nd2" "head nd2 = Some y" "chain h (tail nd2) ys'"
    by (auto simp: chain_Cons_iff)
  from Cons.prems(3) ys have "length xs = length ys'" by simp
  from Cons.IH[OF nd1(3) nd2(3) this] show ?case
    by (subst eq_loop.simps) (simp add: nd1 nd2 ys)
qed





lemma node_chain_Nil: "chain h n [] \<Longrightarrow> node_chain h n = Some [n]"
  by (subst node_chain.simps) (auto simp: chain_Nil_iff)

lemma node_chain_Cons:
  "deref h n = Some nd \<Longrightarrow> head nd = Some x \<Longrightarrow>
   node_chain h n = Option.bind (node_chain h (tail nd)) (\<lambda>ns. Some (n # ns))"
  by (subst node_chain.simps) simp

lemma node_chain_chain:
  "chain h n xs \<Longrightarrow> \<exists>ns. node_chain h n = Some ns \<and> length ns = Suc (length xs)"
proof (induction xs arbitrary: n)
  case Nil
  then show ?case by (simp add: node_chain_Nil)
next
  case (Cons x xs)
  from Cons.prems obtain nd where nd: "deref h n = Some nd" "head nd = Some x" "chain h (tail nd) xs"
    by (rule chain_ConsE)
  from Cons.IH[OF nd(3)] show ?case by (auto simp: node_chain_Cons[OF nd(1,2)])
qed

lemma node_chain_follow_tail:
  "chain h n xs \<Longrightarrow> k \<le> length xs \<Longrightarrow> follow_tail h k n = Some m \<Longrightarrow> node_chain h n = Some ns
   \<Longrightarrow> node_chain h m = Some (drop k ns)"
proof (induction k arbitrary: n xs ns)
  case 0
  then show ?case by simp
next
  case (Suc k)
  then obtain y ys where xs: "xs = y # ys" by (cases xs) auto
  with Suc.prems obtain nd where nd: "deref h n = Some nd" "head nd = Some y" "chain h (tail nd) ys"
    by (auto simp: chain_Cons_iff)
  from Suc.prems(4) obtain ns' where ns: "node_chain h (tail nd) = Some ns'" "ns = n # ns'"
    by (auto simp: node_chain_Cons[OF nd(1,2)] bind_eq_Some_conv)
  from Suc.prems(3) nd have f: "follow_tail h k (tail nd) = Some m" by simp
  from Suc.prems(2) xs have "k \<le> length ys" by simp
  from Suc.IH[OF nd(3) this f ns(1)] ns(2) show ?case by simp
qed

subsection \<open>Sizes\<close>

lemma valid_size: "valid h l xs \<Longrightarrow> unat (List_size l) = length xs"
  by (simp add: valid_def List_size_def)

lemma valid_chain: "valid h l xs \<Longrightarrow> chain h (node_m l) xs"
  by (simp add: valid_def)

lemma valid_isEmpty: "valid h l xs \<Longrightarrow> List_isEmpty l \<longleftrightarrow> xs = []"
  by (simp add: valid_def List_isEmpty_def unat_eq_zero[symmetric])

lemma valid_unique: "valid h l xs \<Longrightarrow> valid h l ys \<Longrightarrow> xs = ys"
  by (auto simp: valid_def dest: chain_unique)

lemma unat_min: "unat (min a b) = min (unat a) (unat b)" for a b :: size_t
  by (simp add: min_def word_le_nat_alt)


lemma unat_plus: "unat a + unat b < 2 ^ 64 \<Longrightarrow> unat (a + b) = unat a + unat b" for a :: size_t
proof -
  assume "unat a + unat b < 2 ^ 64"
  then have "unat a + unat b < 2 ^ LENGTH(64)" by simp
  then show ?thesis by (rule unat_add_lem[THEN iffD1])
qed

subsection \<open>Constructors\<close>

lemma List_empty_valid:
  "List_empty h = (l, h') \<Longrightarrow> valid h' l [] \<and> prefix h h'"
  by (auto simp: List_empty_def valid_def Node_create_nil_def chain_Nil_iff deref_def)




lemma fold_snoc_map: "fold (\<lambda>x buf. buf @ [g x]) xs acc = acc @ map g xs"
  by (induction xs arbitrary: acc) auto



subsection \<open>Accessors\<close>

lemma List_head_valid:
  "valid h l xs \<Longrightarrow>
   List_head h l = Some (case xs of [] \<Rightarrow> Inl (out_of_range ''head of empty list'') | x # _ \<Rightarrow> Inr x)"
  by (cases xs) (auto simp: List_head_def valid_isEmpty dest!: valid_chain simp: chain_Cons_iff)

lemma List_tail_valid:
  assumes "valid h l (x # xs)"
  shows "\<exists>t. List_tail h l = Some (Inr t) \<and> valid h t xs \<and>
             follow_tail h 1 (node_m l) = Some (node_m t)"
proof -
  from valid_chain[OF assms] obtain nd where
    nd: "deref h (node_m l) = Some nd" "chain h (tail nd) xs" by (auto simp: chain_Cons_iff)
  from assms have s: "size_m l \<noteq> 0" by (auto simp: valid_def)
  with assms have "unat (size_m l - 1) = length xs" by (simp add: valid_def unat_minus_one)
  with nd s show ?thesis
    by (simp add: List_tail_def List_isEmpty_def List_mk_def List_size_def valid_def)
qed

lemma List_tail_empty:
  "valid h l [] \<Longrightarrow> List_tail h l = Some (Inl (out_of_range ''tail of empty list''))"
  by (simp add: List_tail_def valid_isEmpty)

lemma word_ge_iff: "valid h l xs \<Longrightarrow> (List_size l \<le> i) = (length xs \<le> unat i)"
  by (simp add: word_le_nat_alt valid_size)

lemma List_at_valid:
  assumes "valid h l xs"
  shows "List_at h l i = Some (if unat i < length xs then Inr (xs ! unat i)
                               else Inl (out_of_range ''index out of range''))"
proof (cases "unat i < length xs")
  case True
  then have k: "unat i \<le> length xs" by simp
  from follow_tail_chain[OF valid_chain[OF assms] k] obtain m where
    m: "follow_tail h (unat i) (node_m l) = Some m" "chain h m (drop (unat i) xs)" by blast
  from True have "drop (unat i) xs = xs ! unat i # drop (Suc (unat i)) xs"
    by (simp add: Cons_nth_drop_Suc)
  with m(2) obtain nd where "deref h m = Some nd" "head nd = Some (xs ! unat i)"
    by (auto simp: chain_Cons_iff)
  with True m(1) show ?thesis by (simp add: List_at_def word_ge_iff[OF assms])
next
  case False
  then show ?thesis by (simp add: List_at_def word_ge_iff[OF assms])
qed

lemma List_last_valid:
  assumes "valid h l xs"
  shows "List_last h l = Some (if xs = [] then Inl (out_of_range ''last of empty list'')
                               else Inr (last xs))"
proof (cases "xs = []")
  case True
  with assms show ?thesis by (simp add: List_last_def valid_isEmpty)
next
  case False
  with assms have "List_size l \<noteq> 0" by (auto simp: valid_def List_size_def)
  then have "unat (List_size l - 1) = length xs - 1"
    by (simp add: unat_minus_one valid_size[OF assms])
  with False show ?thesis
    by (simp add: List_last_def valid_isEmpty[OF assms] List_at_valid[OF assms] last_conv_nth)
qed

subsection \<open>Prefixes and suffixes\<close>

lemma List_take_valid:
  assumes "valid h l xs"
  shows "\<exists>l' h'. List_take h l n = Some (l', h') \<and> valid h' l' (take (unat n) xs) \<and> prefix h h'"
proof -
  let ?k = "unat (min n (List_size l))"
  have k: "?k = min (unat n) (length xs)" by (simp add: unat_min valid_size[OF assms])
  then have kl: "?k \<le> length xs" by simp
  from take_loop_chain[OF valid_chain[OF assms] kl, of "[]"] obtain m where
    m: "take_loop h ?k (node_m l) [] = Some (map Some (take ?k xs), m)" by auto
  have tk: "take ?k xs = take (unat n) xs" by (simp only: k) (auto simp: min_def)
  obtain l' h' where t: "toList_nil (of_nat (length (take ?k xs))) (map Some (rev (take ?k xs))) h = (l', h')"
    by fastforce
  from m t have 1: "List_take h l n = Some (l', h')"
    by (simp add: List_take_def Let_def rev_map)
  have "length (take ?k xs) \<le> length xs" by simp
  from this valid_length_bound[OF assms] have "length (take ?k xs) < 2 ^ 64" by (rule le_less_trans)
  then have "unat (of_nat (length (take ?k xs)) :: size_t) = length (rev (take ?k xs))"
    by (simp add: unat_of_nat_length)
  from toList_nil_valid[OF t this] 1 tk show ?thesis by simp
qed

lemma List_drop_valid:
  assumes "valid h l xs"
  shows "\<exists>l' h'. List_drop h l n = Some (l', h') \<and> valid h' l' (drop (unat n) xs) \<and> prefix h h'"
proof (cases "length xs \<le> unat n")
  case True
  obtain l' h' where e: "List_empty h = (l', h')" by fastforce
  from List_empty_valid[OF e] True e show ?thesis
    by (simp add: List_drop_def word_ge_iff[OF assms])
next
  case False
  then have k: "unat n \<le> length xs" by simp
  from follow_tail_chain[OF valid_chain[OF assms] k] obtain m where
    m: "follow_tail h (unat n) (node_m l) = Some m" "chain h m (drop (unat n) xs)" by blast
  from False have "n \<le> List_size l" by (simp add: word_le_nat_alt valid_size[OF assms])
  then have "unat (List_size l - n) = length xs - unat n"
    by (simp add: unat_sub valid_size[OF assms])
  with m False show ?thesis
    by (simp add: List_drop_def word_ge_iff[OF assms] valid_def List_mk_def)
qed

lemma List_drop_shares:
  assumes "valid h l xs" "unat n < length xs"
  shows "\<exists>l'. List_drop h l n = Some (l', h) \<and> valid h l' (drop (unat n) xs) \<and>
              follow_tail h (unat n) (node_m l) = Some (node_m l')"
proof -
  from assms(2) have k: "unat n \<le> length xs" by simp
  from follow_tail_chain[OF valid_chain[OF assms(1)] k] obtain m where
    m: "follow_tail h (unat n) (node_m l) = Some m" "chain h m (drop (unat n) xs)" by blast
  from assms(2) have "n \<le> List_size l" by (simp add: word_le_nat_alt valid_size[OF assms(1)])
  then have "unat (List_size l - n) = length xs - unat n"
    by (simp add: unat_sub valid_size[OF assms(1)])
  with m assms(2) show ?thesis
    by (simp add: List_drop_def word_ge_iff[OF assms(1)] valid_def List_mk_def)
qed

lemma size_minus_min:
  "valid h l xs \<Longrightarrow> unat (List_size l - min n (List_size l)) = length xs - unat n"
proof -
  assume v: "valid h l xs"
  have "min n (List_size l) \<le> List_size l" by simp
  then have "unat (List_size l - min n (List_size l)) = unat (List_size l) - unat (min n (List_size l))"
    by (rule unat_sub)
  then show ?thesis by (simp add: unat_min valid_size[OF v])
qed

lemma List_takeRight_valid:
  assumes "valid h l xs"
  shows "\<exists>l' h'. List_takeRight h l n = Some (l', h') \<and>
           valid h' l' (drop (length xs - unat n) xs) \<and> prefix h h'"
  using List_drop_valid[OF assms, of "List_size l - min n (List_size l)"]
  by (simp add: List_takeRight_def size_minus_min[OF assms])

lemma List_dropRight_valid:
  assumes "valid h l xs"
  shows "\<exists>l' h'. List_dropRight h l n = Some (l', h') \<and>
           valid h' l' (take (length xs - unat n) xs) \<and> prefix h h'"
  using List_take_valid[OF assms, of "List_size l - min n (List_size l)"]
  by (simp add: List_dropRight_def size_minus_min[OF assms])

lemma List_init_valid:
  assumes "valid h l xs"
  shows "(xs = [] \<longrightarrow> List_init h l = Some (Inl (out_of_range ''init of empty list''))) \<and>
         (xs \<noteq> [] \<longrightarrow> (\<exists>l' h'. List_init h l = Some (Inr (l', h')) \<and> valid h' l' (butlast xs) \<and> prefix h h'))"
proof (cases "xs = []")
  case True
  with assms show ?thesis by (simp add: List_init_def valid_isEmpty)
next
  case False
  with assms have "List_size l \<noteq> 0" by (auto simp: valid_def List_size_def)
  then have u: "unat (List_size l - 1) = length xs - 1"
    by (simp add: unat_minus_one valid_size[OF assms])
  from List_take_valid[OF assms, of "List_size l - 1"] False show ?thesis
    by (auto simp: List_init_def valid_isEmpty[OF assms] u butlast_conv_take)
qed

lemma List_uncons_valid:
  assumes "valid h l xs"
  shows "(xs = [] \<longrightarrow> List_uncons h l = Some (Inl (out_of_range ''uncons on empty list''))) \<and>
         (xs \<noteq> [] \<longrightarrow> (\<exists>t. List_uncons h l = Some (Inr (hd xs, t)) \<and> valid h t (tl xs)))"
proof (cases xs)
  case Nil
  with assms show ?thesis by (simp add: List_uncons_def valid_isEmpty)
next
  case (Cons y ys)
  with List_tail_valid[of h l y ys] assms obtain t where
    t: "List_tail h l = Some (Inr t)" "valid h t ys" by auto
  with Cons show ?thesis
    by (simp add: List_uncons_def valid_isEmpty[OF assms] List_head_valid[OF assms])
qed


subsection \<open>Transformations\<close>





lemma toList_nil_of_length:
  assumes "length ys < 2 ^ 64"
  shows "\<exists>l' h'. toList_nil (of_nat (length (map Some ys))) (rev (map Some ys)) h = (l', h') \<and>
           valid h' l' ys \<and> prefix h h'"
proof -
  obtain l' h' where t: "toList_nil (of_nat (length ys)) (map Some (rev ys)) h = (l', h')"
    by fastforce
  from assms have "unat (of_nat (length ys) :: size_t) = length (rev ys)"
    by (simp add: unat_of_nat_length)
  from toList_nil_valid[OF t this] t show ?thesis by (simp add: rev_map)
qed



subsection \<open>Building on an existing list\<close>

lemma List_concat_valid:
  assumes "valid h l xs" "valid h that ys" "length xs + length ys < 2 ^ 64"
  shows "\<exists>l' h'. List_concat h l that = Some (l', h') \<and> valid h' l' (xs @ ys) \<and> prefix h h'"
proof (cases "xs = [] \<or> ys = []")
  case True
  with assms show ?thesis
    by (auto simp: List_concat_def valid_isEmpty[OF assms(1)] valid_isEmpty[OF assms(2)])
next
  case False
  have fe: "foreachImpl (node_m l) (\<lambda>x (h, buf). (h, buf @ [Some x])) (h, []) = Some (h, map Some xs)"
    using foreachImpl_fold[OF valid_chain[OF assms(1)], of "\<lambda>x buf. buf @ [Some x]" "[]"]
    by (simp add: fold_snoc_map)
  obtain l' h' where
    t: "toList (List_size l + List_size that) (map Some (rev xs)) (node_m that) h = (l', h')"
    by fastforce
  from assms have "unat (List_size l + List_size that) = length (rev xs) + length ys"
    by (simp add: unat_plus valid_size)
  from toList_valid[OF t valid_chain[OF assms(2)] this] have "valid h' l' (xs @ ys) \<and> prefix h h'"
    by simp
  with False fe t show ?thesis
    by (simp add: List_concat_def valid_isEmpty[OF assms(1)] valid_isEmpty[OF assms(2)] rev_map)
qed

lemma List_updated_valid:
  assumes "valid h l xs"
  shows "(length xs \<le> unat i \<longrightarrow> List_updated h l i v = Some (Inl (out_of_range ''index out of range''))) \<and>
         (unat i < length xs \<longrightarrow>
            (\<exists>l' h'. List_updated h l i v = Some (Inr (l', h')) \<and> valid h' l' (xs[unat i := v]) \<and>
                     prefix h h'))"
proof (cases "unat i < length xs")
  case False
  then show ?thesis by (simp add: List_updated_def word_ge_iff[OF assms])
next
  case True
  then have k: "unat i \<le> length xs" by simp
  from take_loop_chain[OF valid_chain[OF assms] k, of "[]"] obtain m where
    m: "take_loop h (unat i) (node_m l) [] = Some (map Some (take (unat i) xs), m)"
       "chain h m (drop (unat i) xs)" by auto
  from True have "drop (unat i) xs = xs ! unat i # drop (Suc (unat i)) xs"
    by (simp add: Cons_nth_drop_Suc)
  with m(2) obtain nd where nd: "deref h m = Some nd" "chain h (tail nd) (drop (Suc (unat i)) xs)"
    by (auto simp: chain_Cons_iff)
  obtain c h1 where c: "Node_create (Some v) (tail nd) h = (c, h1)" by fastforce
  from Node_create_chain[OF c nd(2)] have 1: "chain h1 c (v # drop (Suc (unat i)) xs)" "prefix h h1"
    by auto
  obtain l' h' where
    t: "toList (List_size l) (map Some (rev (take (unat i) xs))) c h1 = (l', h')" by fastforce
  from True have "unat (List_size l) = length (rev (take (unat i) xs)) + length (v # drop (Suc (unat i)) xs)"
    by (simp add: valid_size[OF assms])
  from toList_valid[OF t 1(1) this] have
    2: "valid h' l' (take (unat i) xs @ v # drop (Suc (unat i)) xs)" "prefix h1 h'" by auto
  from True have "xs[unat i := v] = take (unat i) xs @ v # drop (Suc (unat i)) xs"
    by (simp add: upd_conv_take_nth_drop)
  with 2 1(2) True m(1) nd(1) c t show ?thesis
    by (auto simp: List_updated_def word_ge_iff[OF assms] rev_map intro: prefix_order.trans)
qed

subsection \<open>Folds, scans and reductions\<close>

lemma List_foldLeft_valid:
  assumes "valid h l xs"
  shows "List_foldLeft z op h l = Some (foldl op z xs)"
  using foreachImpl_fold[OF valid_chain[OF assms], of "\<lambda>x z. op z x" z]
  by (simp add: List_foldLeft_def foldl_conv_fold)









lemma List_reduceLeft_valid:
  assumes "valid h l xs"
  shows "List_reduceLeft op h l =
           Some (case xs of [] \<Rightarrow> Inl (out_of_range ''reduceLeft on empty list'')
                 | x # ys \<Rightarrow> Inr (foldl op x ys))"
proof (cases xs)
  case Nil
  with assms show ?thesis by (simp add: List_reduceLeft_def valid_isEmpty)
next
  case (Cons y ys)
  with List_tail_valid[of h l y ys] assms obtain t where
    t: "List_tail h l = Some (Inr t)" "valid h t ys" by auto
  with Cons show ?thesis
    by (simp add: List_reduceLeft_def valid_isEmpty[OF assms] List_head_valid[OF assms]
          List_foldLeft_valid[OF t(2)])
qed

lemma List_reduce_valid:
  assumes "valid h l xs"
  shows "List_reduce op h l =
           Some (case xs of [] \<Rightarrow> Inl (out_of_range ''reduce on empty list'')
                 | x # ys \<Rightarrow> Inr (foldl op x ys))"
  by (cases xs) (simp_all add: List_reduce_def valid_isEmpty[OF assms] List_reduceLeft_valid[OF assms])

lemma List_reduceRight_valid:
  assumes "valid h l xs"
  shows "List_reduceRight op h l =
           Some (if xs = [] then Inl (out_of_range ''reduceRight on empty list'')
                 else Inr (foldr op (butlast xs) (last xs)))"
proof (cases "xs = []")
  case True
  with assms show ?thesis by (simp add: List_reduceRight_def valid_isEmpty)
next
  case False
  have fe: "foreachImpl (node_m l) (\<lambda>x (h, buf). (h, buf @ [x])) (h, []) = Some (h, xs)"
    using foreachImpl_fold[OF valid_chain[OF assms], of "\<lambda>x buf. buf @ [x]" "[]"]
      fold_snoc_map[of "\<lambda>x. x" xs "[]"] by simp
  from False have r: "rev xs = last xs # rev (butlast xs)"
    by (metis append_butlast_last_id rev.simps(2) rev_append rev_rev_ident)
  from False fe show ?thesis
    by (simp add: List_reduceRight_def valid_isEmpty[OF assms] foldr_conv_fold r)
qed

subsection \<open>Pairing and equality\<close>


lemma List_eq_valid:
  assumes "valid h l xs" "valid h that ys"
  shows "List_eq ne same h l that = Some (same \<or> list_all2 (\<lambda>x y. \<not> ne x y) xs ys)"
proof (cases "length xs = length ys")
  case True
  then have "List_size l = List_size that"
    by (simp add: word_unat_eq_iff valid_size[OF assms(1)] valid_size[OF assms(2)])
  with eq_loop_chain[OF valid_chain[OF assms(1)] valid_chain[OF assms(2)] True, of ne]
  show ?thesis by (simp add: List_eq_def)
next
  case False
  then have "List_size l \<noteq> List_size that"
    by (simp add: word_unat_eq_iff valid_size[OF assms(1)] valid_size[OF assms(2)])
  moreover from False have "\<not> list_all2 (\<lambda>x y. \<not> ne x y) xs ys"
    by (auto dest: list_all2_lengthD)
  ultimately show ?thesis by (simp add: List_eq_def)
qed

subsection \<open>Flattening\<close>

lemma collect_elems:
  "chain hb n ys \<Longrightarrow>
   foreachImpl n (\<lambda>y (hb, buf). (hb, buf @ [Some y])) (hb, buf) = Some (hb, buf @ map Some ys)"
  using foreachImpl_fold[of hb n ys "\<lambda>y buf. buf @ [Some y]" buf] by (simp add: fold_snoc_map)

lemma flatMap_fold:
  assumes "\<And>x hb. x \<in> set xs \<Longrightarrow>
             \<exists>ys hb'. f x hb = Some (ys, hb') \<and> valid hb' ys (g x) \<and> prefix hb hb'"
  shows "\<exists>hb'. fold (\<lambda>x st. do {
                   (hb, buf) \<leftarrow> st;
                   (ys, hb1) \<leftarrow> f x hb;
                   foreachImpl (node_m ys) (\<lambda>y (hb, buf). (hb, buf @ [Some y])) (hb1, buf)
                 }) xs (Some (hb, buf))
               = Some (hb', buf @ map Some (concat (map g xs))) \<and> prefix hb hb'"
  using assms
proof (induction xs arbitrary: hb buf)
  case Nil
  then show ?case by simp
next
  case (Cons x xs)
  from Cons.prems[of x hb] obtain ys hb1 where
    f: "f x hb = Some (ys, hb1)" "valid hb1 ys (g x)" "prefix hb hb1" by auto
  from Cons.IH[of hb1 "buf @ map Some (g x)"] Cons.prems obtain hb' where
    "fold (\<lambda>x st. do {
                   (hb, buf) \<leftarrow> st;
                   (ys, hb1) \<leftarrow> f x hb;
                   foreachImpl (node_m ys) (\<lambda>y (hb, buf). (hb, buf @ [Some y])) (hb1, buf)
                 }) xs (Some (hb1, buf @ map Some (g x)))
       = Some (hb', (buf @ map Some (g x)) @ map Some (concat (map g xs)))" "prefix hb1 hb'"
    by auto
  with f(3) show ?case
    by (auto simp: f(1) collect_elems[OF valid_chain[OF f(2)]] intro: prefix_order.trans)
qed

lemma List_flatMap_valid:
  assumes "valid h l xs"
    and "\<And>x hb. x \<in> set xs \<Longrightarrow>
             \<exists>ys hb'. f x hb = Some (ys, hb') \<and> valid hb' ys (g x) \<and> prefix hb hb'"
    and "length (concat (map g xs)) < 2 ^ 64"
  shows "\<exists>l' hb'. List_flatMap f h l hb = Some (l', hb') \<and> valid hb' l' (concat (map g xs)) \<and>
           prefix hb hb'"
proof -
  let ?G = "\<lambda>x st. do {
                   (hb, buf) \<leftarrow> st;
                   (ys, hb1) \<leftarrow> f x hb;
                   foreachImpl (node_m ys) (\<lambda>y (hb, buf). (hb, buf @ [Some y])) (hb1, buf)
                 }"
  from flatMap_fold[of xs f g hb "[]"] assms(2) obtain hb1 where
    1: "fold ?G xs (Some (hb, [])) = Some (hb1, map Some (concat (map g xs)))" "prefix hb hb1"
    by auto
  from foreachImpl_fold[OF valid_chain[OF assms(1)], of ?G "Some (hb, [])"] 1(1)
  have fe: "foreachImpl (node_m l) (\<lambda>x (h, st). (h, ?G x st)) (h, Some (hb, []))
              = Some (h, Some (hb1, map Some (concat (map g xs))))" by simp
  from toList_nil_of_length[OF assms(3), of hb1] obtain l' hb' where
    t: "toList_nil (of_nat (length (map Some (concat (map g xs))))) (rev (map Some (concat (map g xs)))) hb1
          = (l', hb')" "valid hb' l' (concat (map g xs))" "prefix hb1 hb'" by blast
  from fe t(1) have "List_flatMap f h l hb = Some (l', hb')"
    by (simp add: List_flatMap_def)
  with t 1(2) show ?thesis by (auto intro: prefix_order.trans)
qed



subsection \<open>Sorting\<close>

lemma swo_irrefl: "strict_weak_order lt \<Longrightarrow> \<not> lt x x"
  by (simp add: strict_weak_order_def)

lemma swo_trans: "strict_weak_order lt \<Longrightarrow> lt x y \<Longrightarrow> lt y z \<Longrightarrow> lt x z"
  unfolding strict_weak_order_def by blast

lemma swo_equiv_trans:
  "strict_weak_order lt \<Longrightarrow> equiv_under lt x y \<Longrightarrow> equiv_under lt y z \<Longrightarrow> equiv_under lt x z"
  unfolding strict_weak_order_def by blast

lemma swo_neg_trans:
  assumes "strict_weak_order lt" "\<not> lt y x" "\<not> lt z y"
  shows "\<not> lt z x"
proof
  assume zx: "lt z x"
  have "\<not> lt x y"
  proof
    assume "lt x y"
    with zx have "lt z y" using swo_trans[OF assms(1)] by blast
    with assms(3) show False by simp
  qed
  with assms(2) have 1: "equiv_under lt x y" by (simp add: equiv_under_def)
  have "\<not> lt y z"
  proof
    assume "lt y z"
    with zx have "lt y x" using swo_trans[OF assms(1)] by blast
    with assms(2) show False by simp
  qed
  with assms(3) have "equiv_under lt y z" by (simp add: equiv_under_def)
  from swo_equiv_trans[OF assms(1) 1 this] zx show False by (simp add: equiv_under_def)
qed

lemma equiv_under_fun: "equiv_under lt x = (\<lambda>y. \<not> lt x y \<and> \<not> lt y x)"
  by (rule ext) (simp add: equiv_under_def)

lemma swo_the: "strict_weak_order lt \<Longrightarrow> strict_weak_order (\<lambda>x y. lt (the x) (the y))"
  unfolding strict_weak_order_def equiv_under_def by blast

lemma mset_map_Some_ex:
  assumes "mset bs = mset (map Some xs)"
  shows "bs = map Some (map the bs)"
proof -
  from assms have "set bs = Some ` set xs" by (metis set_mset_mset set_map)
  then have "\<forall>b \<in> set bs. Some (the b) = b" by auto
  then show ?thesis by (simp add: map_idI)
qed

lemma List_sorted_valid:
  assumes "sorts std_sort" "sorts_stably std_stable_sort" "strict_weak_order lt" "valid h l xs"
  shows "\<exists>l' h' ys. List_sorted std_sort std_stable_sort lt flag h l = Some (l', h') \<and>
           valid h' l' ys \<and> prefix h h' \<and> mset ys = mset xs \<and>
           sorted_wrt (\<lambda>a b. \<not> lt b a) ys \<and>
           (flag \<longrightarrow> (\<forall>x. filter (equiv_under lt x) ys = filter (equiv_under lt x) xs))"
proof -
  let ?cmp = "\<lambda>x y. lt (the x) (the y)"
  let ?bs = "if flag then std_stable_sort ?cmp (map Some xs) else std_sort ?cmp (map Some xs)"
  let ?ys = "map the ?bs"
  note sw = swo_the[OF assms(3)]
  from assms(1,2) sw have m: "mset ?bs = mset (map Some xs)"
    and s: "sorted_wrt (\<lambda>a b. \<not> ?cmp b a) ?bs"
    by (auto simp: sorts_def sorts_stably_def)
  from mset_map_Some_ex[OF m] have bs: "?bs = map Some ?ys" .
  have "mset ?ys = image_mset the (mset ?bs)" by simp
  also have "\<dots> = mset xs" by (simp only: m) (simp add: multiset.map_comp comp_def)
  finally have my: "mset ?ys = mset xs" .
  then have ly: "length ?ys = length xs" by (metis size_mset)
  from s have sy: "sorted_wrt (\<lambda>a b. \<not> lt b a) ?ys" by (simp add: sorted_wrt_map)
  have st: "flag \<Longrightarrow> filter (equiv_under lt x) ?ys = filter (equiv_under lt x) xs" for x
  proof -
    assume f: flag
    with assms(2) sw have
      "filter (equiv_under ?cmp (Some x)) ?bs = filter (equiv_under ?cmp (Some x)) (map Some xs)"
      by (simp add: sorts_stably_def)
    then have "map the (filter (equiv_under ?cmp (Some x)) ?bs)
                = map the (filter (equiv_under ?cmp (Some x)) (map Some xs))" by simp
    with f show ?thesis by (simp add: filter_map comp_def equiv_under_fun)
  qed
  have fe: "foreachImpl (node_m l) (\<lambda>x (h, buf). (h, buf @ [Some x])) (h, []) = Some (h, map Some xs)"
    by (rule collect_elems[OF valid_chain[OF assms(4)], of "[]", simplified])
  obtain l' h' where t: "toList_nil (List_size l) (map Some (rev ?ys)) h = (l', h')" by fastforce
  have "unat (List_size l) = length (rev ?ys)" using ly by (simp add: valid_size[OF assms(4)])
  from toList_nil_valid[OF t this] have v: "valid h' l' ?ys" "prefix h h'" by simp_all
  have "rev ?bs = map Some (rev ?ys)" by (subst bs) (simp add: rev_map)
  with fe t have "List_sorted std_sort std_stable_sort lt flag h l = Some (l', h')"
    by (simp add: List_sorted_def Let_def)
  with v my sy st show ?thesis by blast
qed

subsection \<open>Insertion sort meets the contracts\<close>

lemma mset_insert_by: "mset (insert_by cmp x ys) = add_mset x (mset ys)"
  by (induction ys) auto

lemma mset_insertion_sort: "mset (insertion_sort cmp xs) = mset xs"
  by (induction xs) (auto simp: mset_insert_by)

lemma set_insert_by: "set (insert_by cmp x ys) = insert x (set ys)"
  by (metis mset_insert_by set_mset_add_mset_insert set_mset_mset)

lemma sorted_insert_by:
  assumes "strict_weak_order cmp" "sorted_wrt (\<lambda>a b. \<not> cmp b a) ys"
  shows "sorted_wrt (\<lambda>a b. \<not> cmp b a) (insert_by cmp x ys)"
  using assms(2)
proof (induction ys)
  case Nil
  then show ?case by simp
next
  case (Cons y ys)
  show ?case
  proof (cases "cmp y x")
    case True
    have "\<not> cmp x y"
    proof
      assume "cmp x y"
      with True have "cmp x x" using swo_trans[OF assms(1)] by blast
      with swo_irrefl[OF assms(1)] show False by simp
    qed
    with True Cons show ?thesis by (auto simp: set_insert_by)
  next
    case False
    have "\<not> cmp z x" if "z \<in> set ys" for z
    proof -
      from that Cons.prems have "\<not> cmp z y" by simp
      from swo_neg_trans[OF assms(1) False this] show ?thesis .
    qed
    with False Cons.prems show ?thesis by auto
  qed
qed

lemma sorted_insertion_sort:
  "strict_weak_order cmp \<Longrightarrow> sorted_wrt (\<lambda>a b. \<not> cmp b a) (insertion_sort cmp xs)"
  by (induction xs) (auto simp: sorted_insert_by)

lemma filter_insert_by:
  assumes "strict_weak_order cmp"
  shows "filter (equiv_under cmp z) (insert_by cmp x ys) = filter (equiv_under cmp z) (x # ys)"
proof (induction ys)
  case Nil
  show ?case by simp
next
  case (Cons y ys)
  show ?case
  proof (cases "cmp y x")
    case False
    then show ?thesis by simp
  next
    case True
    have "\<not> (equiv_under cmp z x \<and> equiv_under cmp z y)"
    proof
      assume a: "equiv_under cmp z x \<and> equiv_under cmp z y"
      then have "equiv_under cmp y z" by (simp add: equiv_under_def)
      from swo_equiv_trans[OF assms this] a have "equiv_under cmp y x" by blast
      with True show False by (simp add: equiv_under_def)
    qed
    with True Cons show ?thesis by auto
  qed
qed

lemma filter_insertion_sort:
  "strict_weak_order cmp \<Longrightarrow>
   filter (equiv_under cmp z) (insertion_sort cmp xs) = filter (equiv_under cmp z) xs"
  by (induction xs) (simp_all add: filter_insert_by)

lemma insertion_sort_sorts: "sorts insertion_sort"
  by (simp add: sorts_def mset_insertion_sort sorted_insertion_sort)

lemma insertion_sort_sorts_stably: "sorts_stably insertion_sort"
  by (simp add: sorts_stably_def insertion_sort_sorts filter_insertion_sort)

section \<open>The handle invariant\<close>








section \<open>Filtering\<close>

text \<open>
  C2. For a list \<open>l\<close> with the elements \<open>xs\<close> and a predicate \<open>p\<close>, \<^verbatim>\<open>filter(p)\<close>
  returns a list with exactly the elements of \<open>xs\<close> that satisfy \<open>p\<close>, in their order,
  and \<^verbatim>\<open>filterNot(p)\<close> one with exactly those that violate \<open>p\<close>; \<^verbatim>\<open>forall(p)\<close> is
  true on the former, and the two sizes add up to the size of \<open>l\<close> (as machine integers
  and without wrapping around).
\<close>

theorem filter_filterNot_correct:
  assumes "valid h l xs"
  shows "\<exists>l1 h1 l2 h2 calls.
           List_filter p h l = Some (l1, h1) \<and> valid h1 l1 (filter p xs) \<and>
           List_filterNot p h l = Some (l2, h2) \<and> valid h2 l2 (filter (\<lambda>x. \<not> p x) xs) \<and>
           List_forall p h1 l1 = Some (True, calls) \<and>
           List_size l1 + List_size l2 = List_size l \<and>
           unat (List_size l1) + unat (List_size l2) = unat (List_size l)"
proof -
  from List_filter_valid[OF assms, of p] obtain l1 h1 where
    1: "List_filter p h l = Some (l1, h1)" "valid h1 l1 (filter p xs)" by blast
  from List_filter_valid[OF assms, of "\<lambda>x. \<not> p x"] obtain l2 h2 where
    2: "List_filterNot p h l = Some (l2, h2)" "valid h2 l2 (filter (\<lambda>x. \<not> p x) xs)"
    by (auto simp: List_filterNot_def)
  from 1(2) have "chain h1 (node_m l1) (filter p xs)" by (simp add: valid_def)
  from forall_loop_chain[OF this, of p "[]"] have
    3: "List_forall p h1 l1 = Some (True, takeWhile p (filter p xs) @ take 1 (dropWhile p (filter p xs)))"
    by (simp add: List_forall_def list_all_iff)
  have n: "unat (List_size l1) + unat (List_size l2) = unat (List_size l)"
    using 1(2) 2(2) assms sum_length_filter_compl[of p xs] by (simp add: valid_def List_size_def)
  then have "List_size l1 + List_size l2 = List_size l" by (rule word_add_eqI)
  with 1 2 3 n show ?thesis by blast
qed

theorem filter_filterNot_correct_witness:
  "valid (snd xs_12456) (fst xs_12456) [1, 2, 4, 5, 6] \<and>
   (\<exists>l1 h1 l2 h2 calls.
      List_filter even (snd xs_12456) (fst xs_12456) = Some (l1, h1) \<and> valid h1 l1 [2, 4, 6] \<and>
      List_filterNot even (snd xs_12456) (fst xs_12456) = Some (l2, h2) \<and> valid h2 l2 [1, 5] \<and>
      List_forall even h1 l1 = Some (True, calls) \<and>
      List_size l1 + List_size l2 = List_size (fst xs_12456) \<and>
      unat (List_size l1) + unat (List_size l2) = unat (List_size (fst xs_12456)))"
proof -
  have v: "valid (snd xs_12456) (fst xs_12456) [1, 2, 4, 5, 6]"
    by code_simp
  from filter_filterNot_correct[OF v, of even] v show ?thesis by simp
qed

section \<open>Queries on the empty list\<close>

text \<open>
  C10. On an empty list, \<^verbatim>\<open>exists(p)\<close> returns false and \<^verbatim>\<open>forall(p)\<close> returns true
  for every predicate \<open>p\<close>, and the log of the calls of \<open>p\<close> is empty: \<open>p\<close> is never
  applied.
\<close>

theorem exists_forall_empty:
  assumes "valid h l []"
  shows "List_exists p h l = Some (False, []) \<and> List_forall p h l = Some (True, [])"
  using exists_loop_chain[OF valid_chain[OF assms], of p "[]"]
    forall_loop_chain[OF valid_chain[OF assms], of p "[]"]
  by (simp add: List_exists_def List_forall_def)

theorem exists_forall_empty_witness:
  "valid (snd xs_empty) (fst xs_empty) [] \<and>
   List_exists (\<lambda>x. x = 0) (snd xs_empty) (fst xs_empty) = Some (False, []) \<and>
   List_forall (\<lambda>x. x = 0) (snd xs_empty) (fst xs_empty) = Some (True, [])"
proof -
  have v: "valid (snd xs_empty) (fst xs_empty) []" by code_simp
  from exists_forall_empty[OF v, of "\<lambda>x. x = 0"] v show ?thesis by simp
qed

section \<open>Errors\<close>

text \<open>
  C4. The EmptyCollection errors are the \<^verbatim>\<open>std::out_of_range\<close> exceptions thrown behind
  the \<^verbatim>\<open>isEmpty()\<close> tests. On a list of size zero each of \<^verbatim>\<open>head\<close>, \<^verbatim>\<open>tail\<close>,
  \<^verbatim>\<open>uncons\<close>, \<^verbatim>\<open>last\<close>, \<^verbatim>\<open>init\<close>, \<^verbatim>\<open>reduce\<close>, \<^verbatim>\<open>reduceLeft\<close> and
  \<^verbatim>\<open>reduceRight\<close> throws its error; on a list of another size each returns its value: the
  first element, the list of the other elements, the pair of both, the last element, the
  list without its last element, and the left, left and right fold of the elements.
\<close>

theorem empty_collection_errors:
  assumes "valid h l xs"
  shows "(List_size l = 0 \<longrightarrow>
            List_head h l = Some (Inl (out_of_range ''head of empty list'')) \<and>
            List_tail h l = Some (Inl (out_of_range ''tail of empty list'')) \<and>
            List_uncons h l = Some (Inl (out_of_range ''uncons on empty list'')) \<and>
            List_last h l = Some (Inl (out_of_range ''last of empty list'')) \<and>
            List_init h l = Some (Inl (out_of_range ''init of empty list'')) \<and>
            List_reduce op h l = Some (Inl (out_of_range ''reduce on empty list'')) \<and>
            List_reduceLeft op h l = Some (Inl (out_of_range ''reduceLeft on empty list'')) \<and>
            List_reduceRight op h l = Some (Inl (out_of_range ''reduceRight on empty list''))) \<and>
         (List_size l \<noteq> 0 \<longrightarrow>
            List_head h l = Some (Inr (hd xs)) \<and>
            (\<exists>t. List_tail h l = Some (Inr t) \<and> valid h t (tl xs)) \<and>
            (\<exists>t. List_uncons h l = Some (Inr (hd xs, t)) \<and> valid h t (tl xs)) \<and>
            List_last h l = Some (Inr (last xs)) \<and>
            (\<exists>i h'. List_init h l = Some (Inr (i, h')) \<and> valid h' i (butlast xs)) \<and>
            List_reduce op h l = Some (Inr (foldl op (hd xs) (tl xs))) \<and>
            List_reduceLeft op h l = Some (Inr (foldl op (hd xs) (tl xs))) \<and>
            List_reduceRight op h l = Some (Inr (foldr op (butlast xs) (last xs))))"
proof (cases xs)
  case Nil
  with assms have z: "List_size l = 0" by (simp add: valid_def List_size_def unat_eq_zero[symmetric])
  from Nil assms have "List_tail h l = Some (Inl (out_of_range ''tail of empty list''))"
    by (simp add: List_tail_empty)
  with z Nil show ?thesis
    using List_head_valid[OF assms] List_uncons_valid[OF assms] List_last_valid[OF assms]
      List_init_valid[OF assms] List_reduce_valid[OF assms, of op]
      List_reduceLeft_valid[OF assms, of op] List_reduceRight_valid[OF assms, of op]
    by simp
next
  case (Cons y ys)
  with assms have z: "List_size l \<noteq> 0" by (auto simp: valid_def List_size_def)
  from Cons assms List_tail_valid[of h l y ys] have
    t: "\<exists>t. List_tail h l = Some (Inr t) \<and> valid h t (tl xs)" by auto
  from Cons List_init_valid[OF assms] have
    i: "\<exists>i h'. List_init h l = Some (Inr (i, h')) \<and> valid h' i (butlast xs)" by auto
  from z Cons t i show ?thesis
    using List_head_valid[OF assms] List_uncons_valid[OF assms] List_last_valid[OF assms]
      List_reduce_valid[OF assms, of op]
      List_reduceLeft_valid[OF assms, of op] List_reduceRight_valid[OF assms, of op]
    by simp
qed

theorem empty_collection_errors_witness:
  "valid (snd xs_empty) (fst xs_empty) [] \<and> List_size (fst xs_empty) = 0 \<and>
   List_head (snd xs_empty) (fst xs_empty) = Some (Inl (out_of_range ''head of empty list'')) \<and>
   List_init (snd xs_empty) (fst xs_empty) = Some (Inl (out_of_range ''init of empty list'')) \<and>
   List_reduceRight (+) (snd xs_empty) (fst xs_empty)
     = Some (Inl (out_of_range ''reduceRight on empty list'')) \<and>
   valid (snd xs_12456) (fst xs_12456) [1, 2, 4, 5, 6] \<and> List_size (fst xs_12456) \<noteq> 0 \<and>
   List_head (snd xs_12456) (fst xs_12456) = Some (Inr 1) \<and>
   List_last (snd xs_12456) (fst xs_12456) = Some (Inr 6) \<and>
   (\<exists>i h'. List_init (snd xs_12456) (fst xs_12456) = Some (Inr (i, h')) \<and> valid h' i [1, 2, 4, 5]) \<and>
   List_reduce (+) (snd xs_12456) (fst xs_12456) = Some (Inr 18) \<and>
   List_reduceRight (-) (snd xs_12456) (fst xs_12456) = Some (Inr 4)"
proof -
  have v0: "valid (snd xs_empty) (fst xs_empty) []" by code_simp
  have z0: "List_size (fst xs_empty) = 0" by code_simp
  have v1: "valid (snd xs_12456) (fst xs_12456) [1, 2, 4, 5, 6]" by code_simp
  have z1: "List_size (fst xs_12456) \<noteq> 0" by code_simp
  from empty_collection_errors[OF v0, of "(+)"] empty_collection_errors[OF v1, of "(+)"]
    empty_collection_errors[OF v1, of "(-)"] v0 v1 z0 z1
  show ?thesis by simp
qed

text \<open>
  C5. The IndexOutOfRange error is the \<^verbatim>\<open>std::out_of_range\<close> exception with the message
  \<^verbatim>\<open>index out of range\<close>. \<^verbatim>\<open>operator[]\<close> and \<^verbatim>\<open>updated\<close> throw it exactly when
  the index is not less than the size; otherwise they return a value.
\<close>

theorem index_out_of_range_iff:
  assumes "valid h l xs"
  shows "(List_at h l i = Some (Inl (out_of_range ''index out of range'')) \<longleftrightarrow> i \<ge> List_size l) \<and>
         (List_updated h l i v = Some (Inl (out_of_range ''index out of range'')) \<longleftrightarrow> i \<ge> List_size l) \<and>
         ((\<exists>e. List_at h l i = Some (Inl e)) \<longleftrightarrow> i \<ge> List_size l) \<and>
         ((\<exists>e. List_updated h l i v = Some (Inl e)) \<longleftrightarrow> i \<ge> List_size l) \<and>
         List_at h l i \<noteq> None \<and> List_updated h l i v \<noteq> None"
  using List_at_valid[OF assms, of i] List_updated_valid[OF assms, of i v]
  by (cases "unat i < length xs") (auto simp: word_ge_iff[OF assms])

theorem index_out_of_range_iff_witness:
  "valid (snd xs_12456) (fst xs_12456) [1, 2, 4, 5, 6] \<and>
   List_at (snd xs_12456) (fst xs_12456) 5 = Some (Inl (out_of_range ''index out of range'')) \<and>
   List_updated (snd xs_12456) (fst xs_12456) 5 0 = Some (Inl (out_of_range ''index out of range'')) \<and>
   List_at (snd xs_12456) (fst xs_12456) 4 \<noteq> Some (Inl (out_of_range ''index out of range'')) \<and>
   List_updated (snd xs_12456) (fst xs_12456) 4 0 \<noteq> Some (Inl (out_of_range ''index out of range''))"
proof -
  have v: "valid (snd xs_12456) (fst xs_12456) [1, 2, 4, 5, 6]" by code_simp
  have s: "List_size (fst xs_12456) = 5" by code_simp
  from index_out_of_range_iff[OF v, of 5 0] index_out_of_range_iff[OF v, of 4 0] v s
  show ?thesis by simp
qed

section \<open>Replacing an element\<close>

text \<open>
  C6. For a list \<open>l\<close> and an index \<open>i\<close> below its size, \<^verbatim>\<open>updated(i, v)\<close> returns a
  list of the same size that has \<open>v\<close> at position \<open>i\<close> and, at every other position
  \<open>j\<close>, what \<open>l\<close> has there (\<^verbatim>\<open>operator[]\<close> gives the same result on both, also an
  error when \<open>j\<close> is out of range).
\<close>

theorem updated_correct:
  assumes "valid h l xs" "i < List_size l"
  shows "\<exists>l' h'. List_updated h l i v = Some (Inr (l', h')) \<and>
           List_size l' = List_size l \<and>
           List_at h' l' i = Some (Inr v) \<and>
           (\<forall>j. j \<noteq> i \<longrightarrow> List_at h' l' j = List_at h l j \<and> List_at h' l j = List_at h l j)"
proof -
  from assms have i: "unat i < length xs" by (simp add: word_less_nat_alt valid_size)
  with List_updated_valid[OF assms(1), of i v] obtain l' h' where
    u: "List_updated h l i v = Some (Inr (l', h'))" "valid h' l' (xs[unat i := v])" "prefix h h'"
    by auto
  from u(2) have "unat (List_size l') = unat (List_size l)"
    by (simp add: valid_size valid_size[OF assms(1)])
  then have s: "List_size l' = List_size l" by (simp only: word_unat_eq_iff)
  from i have a: "List_at h' l' i = Some (Inr v)" by (simp add: List_at_valid[OF u(2)])
  have "List_at h' l' j = List_at h l j \<and> List_at h' l j = List_at h l j" if "j \<noteq> i" for j
  proof -
    from that have "unat j \<noteq> unat i" by (simp add: word_unat_eq_iff)
    then show ?thesis
      by (simp add: List_at_valid[OF u(2)] List_at_valid[OF assms(1)]
            List_at_valid[OF valid_prefix[OF u(3) assms(1)]])
  qed
  with u(1) s a show ?thesis by blast
qed

theorem updated_correct_witness:
  "valid (snd xs_12456) (fst xs_12456) [1, 2, 4, 5, 6] \<and> 2 < List_size (fst xs_12456) \<and>
   (\<exists>l' h'. List_updated (snd xs_12456) (fst xs_12456) 2 3 = Some (Inr (l', h')) \<and>
      List_size l' = 5 \<and> List_at h' l' 2 = Some (Inr 3) \<and>
      List_at h' l' 0 = Some (Inr 1) \<and> List_at h' l' 4 = Some (Inr 6))"
proof -
  have v: "valid (snd xs_12456) (fst xs_12456) [1, 2, 4, 5, 6]" by code_simp
  have s: "List_size (fst xs_12456) = 5" by code_simp
  then have i: "2 < List_size (fst xs_12456)" by simp
  have a: "List_at (snd xs_12456) (fst xs_12456) 0 = Some (Inr 1)"
    "List_at (snd xs_12456) (fst xs_12456) 4 = Some (Inr 6)" by code_simp+
  from updated_correct[OF v i, of 3] obtain l' h' where
    u: "List_updated (snd xs_12456) (fst xs_12456) 2 3 = Some (Inr (l', h'))"
       "List_size l' = List_size (fst xs_12456)" "List_at h' l' 2 = Some (Inr 3)"
       "\<forall>j. j \<noteq> 2 \<longrightarrow> List_at h' l' j = List_at (snd xs_12456) (fst xs_12456) j \<and>
                       List_at h' (fst xs_12456) j = List_at (snd xs_12456) (fst xs_12456) j"
    by blast
  from u(4) a have "List_at h' l' 0 = Some (Inr 1)" "List_at h' l' 4 = Some (Inr 6)" by simp_all
  with u v i s show ?thesis by simp
qed

section \<open>Prefixes and suffixes\<close>

text \<open>
  C3, as the claim states it: \<^verbatim>\<open>xs.take(n).concat(xs.drop(n)) == xs\<close> is true for every
  list. On \<^verbatim>\<open>List<double>(NaN, 1.0)\<close> and \<open>n = 1\<close> the prefix is \<open>[NaN]\<close>, the suffix
  \<open>[1.0]\<close> and the concatenation \<open>[NaN, 1.0]\<close>; the sizes agree and the first comparison
  \<^verbatim>\<open>NaN != NaN\<close> is true, so \<^verbatim>\<open>operator==\<close> returns false.
\<close>

theorem take_drop_concat_counterexample:
  "valid (snd xs_nan) (fst xs_nan) [NaN, Num 1] \<and>
   take_concat_drop_eq ne_double (snd xs_nan) (fst xs_nan) 1 = Some False"
  by code_simp

text \<open>
  C3, amended. For a list \<open>l\<close> with the elements \<open>xs\<close> and a number \<open>n\<close>, the size of
  \<^verbatim>\<open>take(n)\<close> is the minimum of \<open>n\<close> and the size of \<open>l\<close>, whatever the elements are;
  and \<^verbatim>\<open>take(n).concat(drop(n)) == l\<close> returns true exactly when no element of \<open>xs\<close> is
  unequal to itself under the \<^verbatim>\<open>operator!=\<close> of the element type (as for every list of
  an element type whose \<^verbatim>\<open>!=\<close> is the negation of an equality).
\<close>

theorem take_drop_concat:
  assumes "valid h l xs"
  shows "(\<exists>t h1 d h2 c h3.
            List_take h l n = Some (t, h1) \<and> List_size t = min n (List_size l) \<and>
            List_drop h1 l n = Some (d, h2) \<and>
            List_concat h2 t d = Some (c, h3) \<and> valid h3 c xs \<and>
            List_eq ne False h3 c l = Some (list_all (\<lambda>x. \<not> ne x x) xs)) \<and>
         take_concat_drop_eq ne h l n = Some (list_all (\<lambda>x. \<not> ne x x) xs)"
proof -
  from List_take_valid[OF assms, of n] obtain t h1 where
    t: "List_take h l n = Some (t, h1)" "valid h1 t (take (unat n) xs)" "prefix h h1" by blast
  from List_drop_valid[OF valid_prefix[OF t(3) assms], of n] obtain d h2 where
    d: "List_drop h1 l n = Some (d, h2)" "valid h2 d (drop (unat n) xs)" "prefix h1 h2" by blast
  have "length (take (unat n) xs) + length (drop (unat n) xs) = length xs" by simp
  with valid_length_bound[OF assms] have
    b: "length (take (unat n) xs) + length (drop (unat n) xs) < 2 ^ 64" by (simp only:)
  from List_concat_valid[OF valid_prefix[OF d(3) t(2)] d(2) b] obtain c h3 where
    c: "List_concat h2 t d = Some (c, h3)" "valid h3 c (take (unat n) xs @ drop (unat n) xs)"
       "prefix h2 h3" by blast
  from c(2) have cv: "valid h3 c xs" by simp
  have "prefix h h3" using t(3) d(3) c(3) by (auto intro: prefix_order.trans)
  from List_eq_valid[OF cv valid_prefix[OF this assms], of ne False]
  have e: "List_eq ne False h3 c l = Some (list_all (\<lambda>x. \<not> ne x x) xs)"
    by (simp add: list_all2_same list_all_iff)
  from t(2) have "unat (List_size t) = unat (min n (List_size l))"
    by (simp add: valid_size unat_min valid_size[OF assms])
  then have s: "List_size t = min n (List_size l)" by (simp only: word_unat_eq_iff)
  from t(1) d(1) c(1) e have
    "take_concat_drop_eq ne h l n = Some (list_all (\<lambda>x. \<not> ne x x) xs)"
    by (simp add: take_concat_drop_eq_def)
  with t(1) s d(1) c(1) cv e show ?thesis by blast
qed

theorem take_drop_concat_witness:
  "valid (snd xs_12456) (fst xs_12456) [1, 2, 4, 5, 6] \<and>
   (\<exists>t h1 d h2 c h3.
      List_take (snd xs_12456) (fst xs_12456) 2 = Some (t, h1) \<and> List_size t = 2 \<and>
      List_drop h1 (fst xs_12456) 2 = Some (d, h2) \<and>
      List_concat h2 t d = Some (c, h3) \<and> valid h3 c [1, 2, 4, 5, 6] \<and>
      List_eq (\<noteq>) False h3 c (fst xs_12456) = Some True) \<and>
   take_concat_drop_eq (\<noteq>) (snd xs_12456) (fst xs_12456) 2 = Some True"
proof -
  have v: "valid (snd xs_12456) (fst xs_12456) [1, 2, 4, 5, 6]" by code_simp
  have s: "List_size (fst xs_12456) = 5" by code_simp
  from take_drop_concat[OF v, of 2 "(\<noteq>)"] v s show ?thesis by simp
qed

text \<open>
  C7, as the claim states it: \<^verbatim>\<open>takeRight(n)\<close> is \<^verbatim>\<open>drop(size() - n)\<close> and
  \<^verbatim>\<open>dropRight(n)\<close> is \<^verbatim>\<open>take(size() - n)\<close>. On \<^verbatim>\<open>List<int>(1)\<close> and \<open>n = 2\<close> the
  difference \<^verbatim>\<open>size() - n\<close> wraps around to the largest \<^verbatim>\<open>std::size_t\<close>:
  \<^verbatim>\<open>drop\<close> of it is an empty list and \<^verbatim>\<open>take\<close> of it the whole list, while
  \<^verbatim>\<open>takeRight(2)\<close> is the whole list and \<^verbatim>\<open>dropRight(2)\<close> an empty one.
\<close>

theorem takeRight_dropRight_counterexample:
  "List_takeRight (snd xs_1) (fst xs_1) 2 \<noteq> List_drop (snd xs_1) (fst xs_1) (List_size (fst xs_1) - 2) \<and>
   List_dropRight (snd xs_1) (fst xs_1) 2 \<noteq> List_take (snd xs_1) (fst xs_1) (List_size (fst xs_1) - 2) \<and>
   map_option (List_size \<circ> fst) (List_takeRight (snd xs_1) (fst xs_1) 2) = Some 1 \<and>
   map_option (List_size \<circ> fst) (List_drop (snd xs_1) (fst xs_1) (List_size (fst xs_1) - 2)) = Some 0 \<and>
   map_option (List_size \<circ> fst) (List_dropRight (snd xs_1) (fst xs_1) 2) = Some 0 \<and>
   map_option (List_size \<circ> fst) (List_take (snd xs_1) (fst xs_1) (List_size (fst xs_1) - 2)) = Some 1"
  by code_simp

text \<open>
  C7, amended. For \<open>n\<close> up to the size, \<^verbatim>\<open>takeRight(n)\<close> is \<^verbatim>\<open>drop(size() - n)\<close> and
  \<^verbatim>\<open>dropRight(n)\<close> is \<^verbatim>\<open>take(size() - n)\<close>; for a larger \<open>n\<close> they are \<^verbatim>\<open>drop(0)\<close>
  and \<^verbatim>\<open>take(0)\<close>. In both cases \<^verbatim>\<open>takeRight(n)\<close> holds the last \<open>n\<close> elements (all of
  them when there are fewer) and \<^verbatim>\<open>dropRight(n)\<close> the elements before them.
\<close>

theorem takeRight_dropRight_correct:
  assumes "valid h l xs"
  shows "(n \<le> List_size l \<longrightarrow>
            List_takeRight h l n = List_drop h l (List_size l - n) \<and>
            List_dropRight h l n = List_take h l (List_size l - n)) \<and>
         (List_size l < n \<longrightarrow>
            List_takeRight h l n = List_drop h l 0 \<and>
            List_dropRight h l n = List_take h l 0) \<and>
         (\<exists>r h'. List_takeRight h l n = Some (r, h') \<and> valid h' r (drop (length xs - unat n) xs)) \<and>
         (\<exists>r h'. List_dropRight h l n = Some (r, h') \<and> valid h' r (take (length xs - unat n) xs))"
proof -
  have 1: "List_takeRight h l n = List_drop h l (List_size l - n) \<and>
           List_dropRight h l n = List_take h l (List_size l - n)" if "n \<le> List_size l"
  proof -
    from that have "min n (List_size l) = n" by (rule min.absorb1)
    then show ?thesis by (simp add: List_takeRight_def List_dropRight_def)
  qed
  have 2: "List_takeRight h l n = List_drop h l 0 \<and> List_dropRight h l n = List_take h l 0"
    if "List_size l < n"
  proof -
    from that have "List_size l \<le> n" by (rule less_imp_le)
    then have "min n (List_size l) = List_size l" by (rule min.absorb2)
    then show ?thesis by (simp add: List_takeRight_def List_dropRight_def)
  qed
  from 1 2 List_takeRight_valid[OF assms, of n] List_dropRight_valid[OF assms, of n]
  show ?thesis by blast
qed

theorem takeRight_dropRight_correct_witness:
  "valid (snd xs_12456) (fst xs_12456) [1, 2, 4, 5, 6] \<and>
   List_takeRight (snd xs_12456) (fst xs_12456) 2 = List_drop (snd xs_12456) (fst xs_12456) 3 \<and>
   List_dropRight (snd xs_12456) (fst xs_12456) 2 = List_take (snd xs_12456) (fst xs_12456) 3 \<and>
   List_takeRight (snd xs_12456) (fst xs_12456) 7 = List_drop (snd xs_12456) (fst xs_12456) 0 \<and>
   List_dropRight (snd xs_12456) (fst xs_12456) 7 = List_take (snd xs_12456) (fst xs_12456) 0 \<and>
   (\<exists>r h'. List_takeRight (snd xs_12456) (fst xs_12456) 2 = Some (r, h') \<and> valid h' r [5, 6]) \<and>
   (\<exists>r h'. List_dropRight (snd xs_12456) (fst xs_12456) 2 = Some (r, h') \<and> valid h' r [1, 2, 4]) \<and>
   (\<exists>r h'. List_takeRight (snd xs_12456) (fst xs_12456) 7 = Some (r, h') \<and> valid h' r [1, 2, 4, 5, 6]) \<and>
   (\<exists>r h'. List_dropRight (snd xs_12456) (fst xs_12456) 7 = Some (r, h') \<and> valid h' r [])"
proof -
  have v: "valid (snd xs_12456) (fst xs_12456) [1, 2, 4, 5, 6]" by code_simp
  have s: "List_size (fst xs_12456) = 5" by code_simp
  have a: "(2 :: size_t) \<le> List_size (fst xs_12456)" "List_size (fst xs_12456) < (7 :: size_t)"
    "List_size (fst xs_12456) - 2 = 3" by (simp_all add: s)
  note t2 = takeRight_dropRight_correct[OF v, of 2]
  note t7 = takeRight_dropRight_correct[OF v, of 7]
  from t2 a have e2: "List_takeRight (snd xs_12456) (fst xs_12456) 2 = List_drop (snd xs_12456) (fst xs_12456) 3"
    "List_dropRight (snd xs_12456) (fst xs_12456) 2 = List_take (snd xs_12456) (fst xs_12456) 3"
    by simp_all
  from t7 a have e7: "List_takeRight (snd xs_12456) (fst xs_12456) 7 = List_drop (snd xs_12456) (fst xs_12456) 0"
    "List_dropRight (snd xs_12456) (fst xs_12456) 7 = List_take (snd xs_12456) (fst xs_12456) 0"
    by simp_all
  from t2 have r2: "\<exists>r h'. List_takeRight (snd xs_12456) (fst xs_12456) 2 = Some (r, h') \<and> valid h' r [5, 6]"
    "\<exists>r h'. List_dropRight (snd xs_12456) (fst xs_12456) 2 = Some (r, h') \<and> valid h' r [1, 2, 4]"
    by simp_all
  from t7 have r7: "\<exists>r h'. List_takeRight (snd xs_12456) (fst xs_12456) 7 = Some (r, h') \<and> valid h' r [1, 2, 4, 5, 6]"
    "\<exists>r h'. List_dropRight (snd xs_12456) (fst xs_12456) 7 = Some (r, h') \<and> valid h' r []"
    by simp_all
  from v e2 e7 r2 r7 show ?thesis by (intro conjI)
qed

section \<open>Structural sharing\<close>

text \<open>
  C9. \<^verbatim>\<open>tail()\<close> of a non-empty list and \<^verbatim>\<open>drop(n)\<close> for \<open>n\<close> below the size allocate
  nothing: the store stays as it is, and the node chain of the result (the pointers to its
  nodes, the nil node included) is the node chain of the list without its first node, or
  without its first \<open>n\<close> nodes: the same nodes, not copies.
\<close>

theorem tail_drop_share_nodes:
  assumes "valid h l xs"
  shows "\<exists>ns. node_chain h (node_m l) = Some ns \<and> length ns = Suc (length xs) \<and>
           (\<not> List_isEmpty l \<longrightarrow>
              (\<exists>t. List_tail h l = Some (Inr t) \<and> node_chain h (node_m t) = Some (tl ns))) \<and>
           (n < List_size l \<longrightarrow>
              (\<exists>d. List_drop h l n = Some (d, h) \<and> node_chain h (node_m d) = Some (drop (unat n) ns)))"
proof -
  note c = valid_chain[OF assms]
  from node_chain_chain[OF c] obtain ns where
    ns: "node_chain h (node_m l) = Some ns" "length ns = Suc (length xs)" by blast
  have t: "\<exists>t. List_tail h l = Some (Inr t) \<and> node_chain h (node_m t) = Some (tl ns)"
    if "\<not> List_isEmpty l"
  proof -
    from that obtain y ys where xs: "xs = y # ys"
      by (cases xs) (auto simp: valid_isEmpty[OF assms])
    with List_tail_valid[of h l y ys] assms obtain t where
      t: "List_tail h l = Some (Inr t)" "follow_tail h 1 (node_m l) = Some (node_m t)" by auto
    from xs have "1 \<le> length xs" by simp
    from node_chain_follow_tail[OF c this t(2) ns(1)] t(1) show ?thesis
      by (simp add: drop_Suc)
  qed
  have d: "\<exists>d. List_drop h l n = Some (d, h) \<and> node_chain h (node_m d) = Some (drop (unat n) ns)"
    if "n < List_size l"
  proof -
    from that have n: "unat n < length xs" by (simp add: word_less_nat_alt valid_size[OF assms])
    from List_drop_shares[OF assms n] obtain d where
      d: "List_drop h l n = Some (d, h)" "follow_tail h (unat n) (node_m l) = Some (node_m d)"
      by blast
    from n have "unat n \<le> length xs" by simp
    from node_chain_follow_tail[OF c this d(2) ns(1)] d(1) show ?thesis by simp
  qed
  from ns t d show ?thesis by blast
qed

theorem tail_drop_share_nodes_witness:
  "valid (snd xs_12456) (fst xs_12456) [1, 2, 4, 5, 6] \<and>
   node_chain (snd xs_12456) (node_m (fst xs_12456))
     = Some [Some 5, Some 4, Some 3, Some 2, Some 1, Some 0] \<and>
   (\<exists>t. List_tail (snd xs_12456) (fst xs_12456) = Some (Inr t) \<and>
        node_chain (snd xs_12456) (node_m t) = Some [Some 4, Some 3, Some 2, Some 1, Some 0]) \<and>
   (\<exists>d. List_drop (snd xs_12456) (fst xs_12456) 3 = Some (d, snd xs_12456) \<and>
        node_chain (snd xs_12456) (node_m d) = Some [Some 2, Some 1, Some 0])"
proof -
  have v: "valid (snd xs_12456) (fst xs_12456) [1, 2, 4, 5, 6]" by code_simp
  have e: "\<not> List_isEmpty (fst xs_12456)" "3 < List_size (fst xs_12456)" by code_simp+
  have c: "node_chain (snd xs_12456) (node_m (fst xs_12456))
     = Some [Some 5, Some 4, Some 3, Some 2, Some 1, Some 0]" by code_simp
  from tail_drop_share_nodes[OF v, of 3] v e c show ?thesis by simp
qed

section \<open>Sorting\<close>

text \<open>
  C8. Let \<^verbatim>\<open>std::sort\<close> and \<^verbatim>\<open>std::stable_sort\<close> meet their contracts and let
  \<open>lt\<close> be a strict weak order. For a list \<open>l\<close> with the elements \<open>xs\<close>,
  \<^verbatim>\<open>sorted(lt, stable)\<close> returns a list whose elements are a permutation of \<open>xs\<close> in
  ascending order (no element is less than an element before it); when the flag is set,
  the elements equivalent to any given \<open>x\<close> are in the order they have in \<open>xs\<close>.
\<close>

theorem sorted_correct:
  assumes "sorts std_sort" "sorts_stably std_stable_sort" "strict_weak_order lt" "valid h l xs"
  shows "\<exists>l' h' ys. List_sorted std_sort std_stable_sort lt stable_flag h l = Some (l', h') \<and>
           valid h' l' ys \<and> mset ys = mset xs \<and>
           sorted_wrt (\<lambda>a b. \<not> lt b a) ys \<and>
           (stable_flag \<longrightarrow> (\<forall>x. filter (equiv_under lt x) ys = filter (equiv_under lt x) xs))"
  using List_sorted_valid[OF assms, of stable_flag] by blast

theorem sorted_correct_witness:
  "sorts insertion_sort \<and> sorts_stably insertion_sort \<and> strict_weak_order ((<) :: int \<Rightarrow> int \<Rightarrow> bool) \<and>
   valid (snd xs_312) (fst xs_312) [3, 1, 2] \<and>
   (\<exists>l' h' ys. List_sorted insertion_sort insertion_sort (<) True (snd xs_312) (fst xs_312) = Some (l', h') \<and>
      valid h' l' ys \<and> mset ys = mset [3, 1, 2] \<and> sorted_wrt (\<lambda>a b. \<not> b < a) ys \<and>
      (\<forall>x. filter (equiv_under (<) x) ys = filter (equiv_under (<) x) [3, 1, 2])) \<and>
   (\<exists>l' h'. List_sorted insertion_sort insertion_sort (<) False (snd xs_312) (fst xs_312) = Some (l', h') \<and>
      valid h' l' [1, 2, 3])"
proof -
  have o: "strict_weak_order ((<) :: int \<Rightarrow> int \<Rightarrow> bool)"
    by (auto simp: strict_weak_order_def equiv_under_def)
  have v: "valid (snd xs_312) (fst xs_312) [3, 1, 2]" by code_simp
  note s = sorted_correct[OF insertion_sort_sorts insertion_sort_sorts_stably o v]
  from s[of True] have 1:
    "\<exists>l' h' ys. List_sorted insertion_sort insertion_sort (<) True (snd xs_312) (fst xs_312) = Some (l', h') \<and>
      valid h' l' ys \<and> mset ys = mset [3, 1, 2] \<and> sorted_wrt (\<lambda>a b. \<not> b < a) ys \<and>
      (\<forall>x. filter (equiv_under (<) x) ys = filter (equiv_under (<) x) [3, 1, 2])" by simp
  from s[of False] obtain l' h' ys where
    2: "List_sorted insertion_sort insertion_sort (<) False (snd xs_312) (fst xs_312) = Some (l', h')"
       "valid h' l' ys" by blast
  have "map_option (\<lambda>(l, h). chain h (node_m l) [1, 2, 3])
          (List_sorted insertion_sort insertion_sort (<) False (snd xs_312) (fst xs_312)) = Some True"
    by code_simp
  with 2(1) have "chain h' (node_m l') [1, 2, 3]" by simp
  with 2(2) have "ys = [1, 2, 3]" by (auto simp: valid_def dest: chain_unique)
  with 2 have "\<exists>l' h'. List_sorted insertion_sort insertion_sort (<) False (snd xs_312) (fst xs_312) = Some (l', h') \<and>
      valid h' l' [1, 2, 3]" by blast
  with insertion_sort_sorts insertion_sort_sorts_stably o v 1 show ?thesis by (intro conjI)
qed











section \<open>The handle invariant holds for every list the interface returns\<close>



end
